theory Spec2Isabelle
  imports Main "HOL-Library.Word" "HOL-Library.AList" "HOL-Library.Monad_Syntax"
begin

section \<open>JavaScript strings\<close>

text \<open>
  A JavaScript string is a sequence of 16-bit code units. \<open>js\<close> writes an ASCII literal of
  the source as such a sequence.
\<close>

type_synonym jsstring = "16 word list"

definition js :: "string \<Rightarrow> jsstring" where
  "js s = map (\<lambda>c. of_nat (of_char c)) s"

text \<open>
  \<open>String.prototype.trim\<close> removes the white space and line terminator code units of
  ECMAScript from both ends: TAB, LF, VT, FF, CR, SP, NBSP, U+1680, U+2000 to U+200A, LS,
  PS, U+202F, U+205F, U+3000 and the byte order mark.
\<close>

definition isWhiteSpace :: "16 word \<Rightarrow> bool" where
  "isWhiteSpace c = (c \<in> set [0x09, 0x0A, 0x0B, 0x0C, 0x0D, 0x20, 0xA0, 0x1680,
     0x2000, 0x2001, 0x2002, 0x2003, 0x2004, 0x2005, 0x2006, 0x2007, 0x2008, 0x2009, 0x200A,
     0x2028, 0x2029, 0x202F, 0x205F, 0x3000, 0xFEFF])"

definition trim :: "jsstring \<Rightarrow> jsstring" where
  "trim s = rev (dropWhile isWhiteSpace (rev (dropWhile isWhiteSpace s)))"

section \<open>The whitelists (src/lib/constants/whitelist.ts)\<close>

definition H1_WHITELIST :: "jsstring list" where
  "H1_WHITELIST = map js
    [''Call of Duty: Black Ops 6'',
     ''Call of Duty: Black Ops Cold War'',
     ''Activision Account Shared'',
     ''Call of Duty: Modern Warfare'',
     ''Call of Duty: Modern Warfare II'',
     ''Call of Duty: Modern Warfare III'',
     ''Call of Duty: Vanguard'',
     ''Call of Duty: Warzone 2.0'',
     ''Call of Duty: Warzone Mobile'']"

definition H2_WHITELIST :: "jsstring list" where
  "H2_WHITELIST = map js
    [''Campaign Checkpoint Data (reverse chronological)'',
     ''Multiplayer Match Data (reverse chronological)'',
     ''PromoCodes'',
     ''Zombies Match Data (reverse chronological)'',
     ''Campaign Data (reverse chronological)'',
     ''Sessions Data (reverse chronological)'',
     ''Zombies Data (reverse chronological)'',
     ''Gamertag Data (reverse chronological)'',
     ''CoOp Match Data (reverse chronological)'',
     ''Mobile Hardware Data (reverse chronological)'']"

section \<open>JavaScript objects with string keys\<close>

text \<open>
  An ordinary object is the list of its own properties in the order of their creation.
  The assignment \<open>obj[k] = v\<close> overwrites the value of an existing property where it
  stands and appends a new one otherwise. The key \<open>__proto__\<close> is the accessor of
  \<open>Object.prototype\<close>: assigning to it never creates an own property (a string value is
  ignored, an object value becomes the prototype).
\<close>

type_synonym 'v jsobject = "(jsstring \<times> 'v) list"

definition obj_set :: "'v jsobject \<Rightarrow> jsstring \<Rightarrow> 'v \<Rightarrow> 'v jsobject" where
  "obj_set obj k v = (if k = js ''__proto__'' then obj else AList.update k v obj)"

text \<open>
  \<open>Object.keys\<close> and \<open>JSON.stringify\<close> (src/lib/functions/upload.ts) do not enumerate in
  creation order throughout: the keys that are array indices (canonical decimal numerals
  below \<open>2\<^sup>3\<^sup>2 - 1\<close>) come first, in ascending numeric order, and the other keys follow in
  creation order.
\<close>

definition isDigit :: "16 word \<Rightarrow> bool" where
  "isDigit c = (0x30 \<le> c \<and> c \<le> 0x39)"

definition digitsValue :: "jsstring \<Rightarrow> nat" where
  "digitsValue s = foldl (\<lambda>a c. 10 * a + (unat c - 48)) 0 s"

definition isArrayIndex :: "jsstring \<Rightarrow> bool" where
  "isArrayIndex s = (s \<noteq> [] \<and> list_all isDigit s \<and> (s = [0x30] \<or> hd s \<noteq> 0x30)
      \<and> digitsValue s < 2 ^ 32 - 1)"

definition ownKeys :: "'v jsobject \<Rightarrow> jsstring list" where
  "ownKeys obj = sort_key digitsValue (filter isArrayIndex (map fst obj))
      @ filter (\<lambda>k. \<not> isArrayIndex k) (map fst obj)"

section \<open>The document tree of htmlparser2\<close>

text \<open>
  \<open>parseDocument\<close> returns a tree of domhandler nodes: a \<open>Document\<close> root, elements (of type
  \<open>tag\<close>, \<open>script\<close> or \<open>style\<close>) with a name and children, text, comments, processing
  instructions and CDATA sections. Attributes and source positions are never read by the
  extraction and are left out.
\<close>

datatype elemType = Tag | Script | Style

datatype node =
    Element elemType jsstring "node list"
  | Text jsstring
  | Comment jsstring
  | Directive jsstring jsstring
  | CDATA "node list"
  | Document "node list"

text \<open>
  The code holds references to nodes, compares them by identity (\<open>sibling !== nextH1Node\<close>)
  and follows their \<open>nextSibling\<close> pointer. A reference is the node together with its
  position in the tree, which is its identity (the child indices from the node up to the
  root), and the chain of its next siblings.
\<close>

record ref =
  ident :: "nat list"
  node :: node
  following :: "node list"

definition nextSibling :: "ref \<Rightarrow> ref option" where
  "nextSibling r =
     (case ident r of
        [] \<Rightarrow> None
      | k # up \<Rightarrow>
         (case following r of
            [] \<Rightarrow> None
          | m # ms \<Rightarrow> Some \<lparr>ident = Suc k # up, node = m, following = ms\<rparr>))"

definition rootRef :: "node \<Rightarrow> ref" where
  "rootRef root = \<lparr>ident = [], node = root, following = []\<rparr>"

text \<open>The test \<open>node.type === 'tag' && node.name === nm\<close>.\<close>

definition isTagNamed :: "jsstring \<Rightarrow> node \<Rightarrow> bool" where
  "isTagNamed nm n = (case n of Element t name cs \<Rightarrow> t = Tag \<and> name = nm | _ \<Rightarrow> False)"

fun isTag :: "node \<Rightarrow> bool" where
  "isTag (Element t name cs) = True"
| "isTag n = False"

text \<open>
  \<open>DomUtils.textContent\<close>: the data of all text nodes below the node, concatenated in
  document order; nothing for comments and processing instructions.
\<close>

fun textContent :: "node \<Rightarrow> jsstring"
  and textContentList :: "node list \<Rightarrow> jsstring" where
  "textContent (Element t name cs) = textContentList cs"
| "textContent (CDATA cs) = textContentList cs"
| "textContent (Document cs) = textContentList cs"
| "textContent (Text d) = d"
| "textContent (Comment d) = []"
| "textContent (Directive name d) = []"
| "textContentList [] = []"
| "textContentList (c # cs) = textContent c @ textContentList cs"

text \<open>
  \<open>DomUtils.findAll(test, node)\<close>: the elements that pass the test among the node itself and
  everything below it, in document order (a node before its children, children from left to
  right). The test is only applied to elements. The code passes a single node where the
  library also takes a list of nodes.
\<close>

fun findAllNode :: "(node \<Rightarrow> bool) \<Rightarrow> nat list \<Rightarrow> node \<Rightarrow> node list \<Rightarrow> ref list"
  and findAllList :: "(node \<Rightarrow> bool) \<Rightarrow> nat list \<Rightarrow> nat \<Rightarrow> node list \<Rightarrow> ref list" where
  "findAllNode test p (Element t name cs) sibs =
     (if isTag (Element t name cs) \<and> test (Element t name cs)
      then [\<lparr>ident = p, node = Element t name cs, following = sibs\<rparr>] else [])
     @ findAllList test p 0 cs"
| "findAllNode test p (CDATA cs) sibs = findAllList test p 0 cs"
| "findAllNode test p (Document cs) sibs = findAllList test p 0 cs"
| "findAllNode test p (Text d) sibs = []"
| "findAllNode test p (Comment d) sibs = []"
| "findAllNode test p (Directive name d) sibs = []"
| "findAllList test p i [] = []"
| "findAllList test p i (c # cs) = findAllNode test (i # p) c cs @ findAllList test p (Suc i) cs"

definition findAll :: "(node \<Rightarrow> bool) \<Rightarrow> ref \<Rightarrow> ref list" where
  "findAll test r = findAllNode test (ident r) (node r) (following r)"

section \<open>The table materializer (parseSingleTable)\<close>

type_synonym rowRecord = "jsstring jsobject"

text \<open>
  \<open>tds.forEach((td, i) => { rowObj[headers[i]] = DomUtils.textContent(td).trim(); })\<close>,
  which runs only when \<open>tds\<close> and \<open>headers\<close> have the same length, so that \<open>headers[i]\<close> is
  always in range.
\<close>

fun forEachTd :: "jsstring list \<Rightarrow> nat \<Rightarrow> ref list \<Rightarrow> rowRecord \<Rightarrow> rowRecord" where
  "forEachTd headers i [] rowObj = rowObj"
| "forEachTd headers i (td # tds) rowObj =
     forEachTd headers (Suc i) tds (obj_set rowObj (headers ! i) (trim (textContent (node td))))"

text \<open>The loop \<open>for (const row of rows)\<close>, with \<open>tableData\<close> as accumulator.\<close>

fun forRows :: "jsstring list \<Rightarrow> ref list \<Rightarrow> rowRecord list \<Rightarrow> rowRecord list" where
  "forRows headers [] tableData = tableData"
| "forRows headers (row # rows) tableData =
     (let tds = findAll (isTagNamed (js ''td'')) row in
      if length tds = length headers
      then forRows headers rows (tableData @ [forEachTd headers 0 tds []])
      else forRows headers rows tableData)"

definition parseSingleTable :: "ref \<Rightarrow> rowRecord list" where
  "parseSingleTable tableNode =
     (let headers = map (\<lambda>th. trim (textContent (node th)))
                        (findAll (isTagNamed (js ''th'')) tableNode);
          rows = findAll (isTagNamed (js ''tr'')) tableNode
      in forRows headers rows [])"

section \<open>The sibling scan (findNextTableSibling)\<close>

text \<open>
  The loop \<open>while (next) { ... next = next.nextSibling; }\<close> follows a pointer; its result
  is \<open>None\<close> when it does not return, \<open>Some None\<close> when it returns \<open>null\<close> and
  \<open>Some (Some t)\<close> when it returns the table \<open>t\<close>.
\<close>

partial_function (option) findNextTableSiblingLoop :: "ref option \<Rightarrow> ref option option" where
  "findNextTableSiblingLoop next =
     (case next of
        None \<Rightarrow> Some None
      | Some n \<Rightarrow>
          if isTagNamed (js ''h2'') (node n) then Some None
          else if isTagNamed (js ''h1'') (node n) then Some None
          else if isTagNamed (js ''table'') (node n) then Some (Some n)
          else findNextTableSiblingLoop (nextSibling n))"

definition findNextTableSibling :: "ref \<Rightarrow> ref option option" where
  "findNextTableSibling h2Node = findNextTableSiblingLoop (nextSibling h2Node)"

section \<open>The section extractor (parseHtmlH1H2Tables)\<close>

type_synonym subMap = "(rowRecord list) jsobject"
type_synonym parsedData = "subMap jsobject"

text \<open>The comparison \<open>sibling !== nextH1Node\<close> of a node with a node or \<open>null\<close>.\<close>

definition sameNode :: "ref \<Rightarrow> ref option \<Rightarrow> bool" where
  "sameNode s b = (case b of None \<Rightarrow> False | Some b' \<Rightarrow> ident s = ident b')"

text \<open>
  The loop \<open>while (sibling && sibling !== nextH1Node)\<close>. The object \<open>parsed[h1Text]\<close> that
  the loop fills by \<open>parsed[h1Text][h2Text] = tableData\<close> is the argument \<open>sub\<close>.
\<close>

partial_function (option) sectionLoop :: "ref option \<Rightarrow> ref option \<Rightarrow> subMap \<Rightarrow> subMap option" where
  "sectionLoop nextH1Node sibling sub =
     (case sibling of
        None \<Rightarrow> Some sub
      | Some s \<Rightarrow>
          if sameNode s nextH1Node then Some sub
          else if isTagNamed (js ''h2'') (node s) then
            (let h2Text = trim (textContent (node s)) in
             if h2Text \<notin> set H2_WHITELIST then sectionLoop nextH1Node (nextSibling s) sub
             else do {
               tableNode \<leftarrow> findNextTableSibling s;
               (case tableNode of
                  Some t \<Rightarrow>
                    sectionLoop nextH1Node (nextSibling s)
                      (obj_set sub h2Text (parseSingleTable t))
                | None \<Rightarrow> sectionLoop nextH1Node (nextSibling s) sub)
             })
          else sectionLoop nextH1Node (nextSibling s) sub)"

text \<open>
  The loop \<open>for (let i = 0; i < h1Elements.length; i++)\<close>. \<open>parsed[h1Text] = {}\<close> stores a
  fresh empty object, which the section loop then fills in place: in the model the filled
  object is stored under the same key once the section loop has returned.
\<close>

function forH1 :: "ref list \<Rightarrow> nat \<Rightarrow> parsedData \<Rightarrow> parsedData option" where
  "forH1 h1Elements i parsed =
     (if i < length h1Elements then
        (let h1Node = h1Elements ! i;
             h1Text = trim (textContent (node h1Node)) in
         if h1Text \<notin> set H1_WHITELIST then forH1 h1Elements (Suc i) parsed
         else
           (let parsed1 = obj_set parsed h1Text [];
                nextH1Node = (if Suc i < length h1Elements
                              then Some (h1Elements ! Suc i) else None) in
            do {
              sub \<leftarrow> sectionLoop nextH1Node (nextSibling h1Node) [];
              forH1 h1Elements (Suc i) (obj_set parsed1 h1Text sub)
            }))
      else Some parsed)"
  by pat_completeness auto
termination
  by (relation "measure (\<lambda>(h1Elements, i, parsed). length h1Elements - i)") auto

declare forH1.simps [simp del]

text \<open>
  The entry point, on the tree that \<open>parseDocument(html)\<close> returns: every statement below
  holds for every tree, whatever the markup it was parsed from.
\<close>

definition parseHtmlH1H2Tables :: "node \<Rightarrow> parsedData option" where
  "parseHtmlH1H2Tables root =
     forH1 (findAll (isTagNamed (js ''h1'')) (rootRef root)) 0 []"

section \<open>Names for parts of the model\<close>

text \<open>
  The trimmed text of a node, the column keys of a table, its rows, the data cells of a
  row, the list \<open>h1Elements\<close> of a document, the value of \<open>h1Elements[i + 1] ?? null\<close> for
  the headings \<open>post\<close> that follow \<open>h1Elements[i]\<close>, and the elements that end the sibling
  scan.
\<close>

definition trimmedText :: "ref \<Rightarrow> jsstring" where
  "trimmedText c = trim (textContent (node c))"

definition tableHeaders :: "ref \<Rightarrow> jsstring list" where
  "tableHeaders tableNode = map trimmedText (findAll (isTagNamed (js ''th'')) tableNode)"

definition tableRows :: "ref \<Rightarrow> ref list" where
  "tableRows tableNode = findAll (isTagNamed (js ''tr'')) tableNode"

definition rowCells :: "ref \<Rightarrow> ref list" where
  "rowCells row = findAll (isTagNamed (js ''td'')) row"

definition h1Elements :: "node \<Rightarrow> ref list" where
  "h1Elements root = findAll (isTagNamed (js ''h1'')) (rootRef root)"

definition nextHeading :: "ref list \<Rightarrow> ref option" where
  "nextHeading post = (case post of [] \<Rightarrow> None | b # bs \<Rightarrow> Some b)"

definition stopsScan :: "ref \<Rightarrow> bool" where
  "stopsScan s = (isTagNamed (js ''h2'') (node s) \<or> isTagNamed (js ''h1'') (node s)
     \<or> isTagNamed (js ''table'') (node s))"

section \<open>The sibling chain as a list\<close>

text \<open>
  \<open>nextAll r\<close> lists the references that repeated \<open>nextSibling\<close> reaches from \<open>r\<close>, in
  document order; in such a list every reference is followed by its own next siblings
  (\<open>isChain\<close>). \<open>sectionSiblings h b\<close> are the siblings that the section loop of the heading
  \<open>h\<close> visits: the next siblings of \<open>h\<close> before the node \<open>b\<close>.
\<close>

fun chainFrom :: "nat \<Rightarrow> nat list \<Rightarrow> node list \<Rightarrow> ref list" where
  "chainFrom k up [] = []"
| "chainFrom k up (m # ms) = \<lparr>ident = k # up, node = m, following = ms\<rparr> # chainFrom (Suc k) up ms"

definition nextAll :: "ref \<Rightarrow> ref list" where
  "nextAll r = (case ident r of [] \<Rightarrow> [] | k # up \<Rightarrow> chainFrom (Suc k) up (following r))"

fun isChain :: "ref list \<Rightarrow> bool" where
  "isChain [] = True"
| "isChain (s # ss) = (nextAll s = ss \<and> isChain ss)"

definition sectionSiblings :: "ref \<Rightarrow> ref option \<Rightarrow> ref list" where
  "sectionSiblings h b = takeWhile (\<lambda>s. \<not> sameNode s b) (nextAll h)"

text \<open>
  Each loop of the code as a recursion over such lists: \<open>scanTable\<close> for the sibling scan,
  \<open>walkRefs\<close> for the section loop and \<open>sectionsFrom\<close> for the loop over the top-level
  headings. Each is proved equal to its loop below.
\<close>

fun scanTable :: "ref list \<Rightarrow> ref option" where
  "scanTable [] = None"
| "scanTable (n # ns) =
     (if isTagNamed (js ''h2'') (node n) then None
      else if isTagNamed (js ''h1'') (node n) then None
      else if isTagNamed (js ''table'') (node n) then Some n
      else scanTable ns)"

fun walkRefs :: "ref option \<Rightarrow> ref list \<Rightarrow> subMap \<Rightarrow> subMap" where
  "walkRefs b [] sub = sub"
| "walkRefs b (s # ss) sub =
     (if sameNode s b then sub
      else if isTagNamed (js ''h2'') (node s) \<and> trim (textContent (node s)) \<in> set H2_WHITELIST then
        (case scanTable ss of
           Some t \<Rightarrow> walkRefs b ss (obj_set sub (trim (textContent (node s))) (parseSingleTable t))
         | None \<Rightarrow> walkRefs b ss sub)
      else walkRefs b ss sub)"

fun sectionsFrom :: "ref list \<Rightarrow> parsedData \<Rightarrow> parsedData" where
  "sectionsFrom [] parsed = parsed"
| "sectionsFrom (h # hs) parsed =
     (if trim (textContent (node h)) \<notin> set H1_WHITELIST then sectionsFrom hs parsed
      else sectionsFrom hs
             (obj_set (obj_set parsed (trim (textContent (node h))) [])
                (trim (textContent (node h)))
                (walkRefs (case hs of [] \<Rightarrow> None | b # bs \<Rightarrow> Some b) (nextAll h) [])))"

text \<open>
  The same scan and walk on the bare nodes of a sibling list, without their positions:
  what \<open>walkNodes ns\<close> returns depends on the nodes \<open>ns\<close> and on nothing else of the
  document.
\<close>

fun scanNodes :: "node list \<Rightarrow> node option" where
  "scanNodes [] = None"
| "scanNodes (n # ns) =
     (if isTagNamed (js ''h2'') n then None
      else if isTagNamed (js ''h1'') n then None
      else if isTagNamed (js ''table'') n then Some n
      else scanNodes ns)"

fun walkNodes :: "node list \<Rightarrow> subMap \<Rightarrow> subMap" where
  "walkNodes [] sub = sub"
| "walkNodes (n # ns) sub =
     (if isTagNamed (js ''h2'') n \<and> trim (textContent n) \<in> set H2_WHITELIST then
        (case scanNodes ns of
           Some t \<Rightarrow> walkNodes ns (obj_set sub (trim (textContent n)) (parseSingleTable (rootRef t)))
         | None \<Rightarrow> walkNodes ns sub)
      else walkNodes ns sub)"

text \<open>
  A sub-level heading for which the section loop stores a table, and the property that all
  keys of a result and of its sub-maps are whitelisted.
\<close>

definition storesTable :: "ref \<Rightarrow> bool" where
  "storesTable s = (isTagNamed (js ''h2'') (node s) \<and> trimmedText s \<in> set H2_WHITELIST
     \<and> (\<exists>t. findNextTableSibling s = Some (Some t)))"

definition whitelistedKeys :: "parsedData \<Rightarrow> bool" where
  "whitelistedKeys parsed =
     (\<forall>(k, sub) \<in> set parsed. k \<in> set H1_WHITELIST \<and> (\<forall>(k2, v) \<in> set sub. k2 \<in> set H2_WHITELIST))"

section \<open>Every loop returns, with the value of its list recursion\<close>

lemma nextAll_unfold:
  "nextAll r = (case nextSibling r of None \<Rightarrow> [] | Some s \<Rightarrow> s # nextAll s)"
  by (cases "ident r"; cases "following r") (simp_all add: nextAll_def nextSibling_def)

lemma nextSibling_None: "nextSibling r = None \<Longrightarrow> nextAll r = []"
  by (subst nextAll_unfold) simp

lemma nextSibling_Some: "nextSibling r = Some s \<Longrightarrow> nextAll r = s # nextAll s"
  by (subst nextAll_unfold) simp

lemma nextSibling_following:
  "nextSibling r = Some s \<Longrightarrow> length (following s) < length (following r)"
  by (cases "ident r"; cases "following r") (auto simp: nextSibling_def)

lemma findNextTableSiblingLoop_Some:
  "findNextTableSiblingLoop (Some s) = Some (scanTable (s # nextAll s))"
proof (induction "length (following s)" arbitrary: s rule: less_induct)
  case less
  show ?case
  proof (cases "nextSibling s")
    case None
    then show ?thesis
      by (subst findNextTableSiblingLoop.simps)
         (simp add: nextSibling_None findNextTableSiblingLoop.simps [of None])
  next
    case (Some s')
    from less [OF nextSibling_following [OF Some]] Some show ?thesis
      by (subst findNextTableSiblingLoop.simps) (simp add: nextSibling_Some)
  qed
qed

lemma findNextTableSibling_eq:
  "findNextTableSibling r = Some (scanTable (nextAll r))"
  by (cases "nextSibling r")
     (simp_all add: findNextTableSibling_def findNextTableSiblingLoop_Some
        nextSibling_None nextSibling_Some findNextTableSiblingLoop.simps [of None])

lemma sectionLoop_Some:
  "sectionLoop b (Some s) sub = Some (walkRefs b (s # nextAll s) sub)"
proof (induction "length (following s)" arbitrary: s sub rule: less_induct)
  case less
  show ?case
  proof (cases "nextSibling s")
    case None
    then show ?thesis
      by (subst sectionLoop.simps)
         (simp add: nextSibling_None sectionLoop.simps [of _ None] findNextTableSibling_eq
            split: option.split)
  next
    case (Some s')
    from less [OF nextSibling_following [OF Some]] Some show ?thesis
      by (subst sectionLoop.simps)
         (simp add: nextSibling_Some findNextTableSibling_eq split: option.split)
  qed
qed

lemma sectionLoop_eq:
  "sectionLoop b (nextSibling h) sub = Some (walkRefs b (nextAll h) sub)"
  by (cases "nextSibling h")
     (simp_all add: sectionLoop_Some nextSibling_None nextSibling_Some sectionLoop.simps [of _ None])

lemma forH1_eq: "forH1 hs i parsed = Some (sectionsFrom (drop i hs) parsed)"
proof (induction hs i parsed rule: forH1.induct)
  case (1 hs i parsed)
  show ?case
  proof (cases "i < length hs")
    case False
    then show ?thesis by (subst forH1.simps) simp
  next
    case True
    then have d: "drop i hs = hs ! i # drop (Suc i) hs"
      by (simp add: Cons_nth_drop_Suc)
    have b: "(case drop (Suc i) hs of [] \<Rightarrow> None | b # bs \<Rightarrow> Some b)
        = (if Suc i < length hs then Some (hs ! Suc i) else None)"
      by (cases "Suc i < length hs") (simp_all add: Cons_nth_drop_Suc [symmetric])
    show ?thesis
    proof (cases "trim (textContent (node (hs ! i))) \<in> set H1_WHITELIST")
      case False
      with True 1(1) show ?thesis
        by (subst forH1.simps) (simp add: d)
    next
      case wl: True
      with True 1(2) show ?thesis
        by (subst forH1.simps) (simp add: d b sectionLoop_eq Let_def)
    qed
  qed
qed

lemma parseHtmlH1H2Tables_eq:
  "parseHtmlH1H2Tables root = Some (sectionsFrom (h1Elements root) [])"
  by (simp add: parseHtmlH1H2Tables_def h1Elements_def forH1_eq)

lemma isChain_chainFrom: "isChain (chainFrom k up ms)"
  by (induction ms arbitrary: k) (simp_all add: nextAll_def)

lemma isChain_nextAll: "isChain (nextAll r)"
  by (cases "ident r") (simp_all add: nextAll_def isChain_chainFrom)

lemma isChain_append: "isChain (xs @ ys) \<Longrightarrow> isChain ys"
  by (induction xs) simp_all

lemma chainFrom_ident: "s \<in> set (chainFrom k up ms) \<Longrightarrow> \<exists>j \<ge> k. ident s = j # up"
proof (induction ms arbitrary: k)
  case Nil
  then show ?case by simp
next
  case (Cons m ms)
  from Cons.prems have "ident s = k # up \<or> s \<in> set (chainFrom (Suc k) up ms)"
    by auto
  then show ?case
  proof
    assume "ident s = k # up"
    then show ?thesis by blast
  next
    assume "s \<in> set (chainFrom (Suc k) up ms)"
    from Cons.IH [OF this] obtain j where "Suc k \<le> j" "ident s = j # up" by blast
    then have "k \<le> j \<and> ident s = j # up" by simp
    then show ?thesis by blast
  qed
qed

lemma chainFrom_distinct: "distinct (map ident (chainFrom k up ms))"
proof (induction ms arbitrary: k)
  case Nil
  show ?case by simp
next
  case (Cons m ms)
  have "k # up \<notin> ident ` set (chainFrom (Suc k) up ms)"
    using chainFrom_ident [of _ "Suc k" up ms] by force
  with Cons [of "Suc k"] show ?case by simp
qed

lemma nextAll_distinct: "distinct (map ident (nextAll r))"
  by (cases "ident r") (simp_all add: nextAll_def chainFrom_distinct)

lemma findAll_test_aux:
  "r \<in> set (findAllNode test p n sibs) \<Longrightarrow> test (node r)"
  "r \<in> set (findAllList test p i cs) \<Longrightarrow> test (node r)"
  by (induction test p n sibs and test p i cs rule: findAllNode_findAllList.induct)
     (auto split: if_splits)

lemma findAll_test: "r \<in> set (findAll test x) \<Longrightarrow> test (node r)"
  unfolding findAll_def by (rule findAll_test_aux(1))

section \<open>Facts about object assignment\<close>

lemma proto_notin_H1: "js ''__proto__'' \<notin> set H1_WHITELIST"
  by (simp add: H1_WHITELIST_def js_def)

lemma proto_notin_H2: "js ''__proto__'' \<notin> set H2_WHITELIST"
  by (simp add: H2_WHITELIST_def js_def)

lemma map_of_obj_set_same:
  "k \<noteq> js ''__proto__'' \<Longrightarrow> map_of (obj_set obj k v) k = Some v"
  by (simp add: obj_set_def update_conv')

lemma map_of_obj_set_other:
  "k' \<noteq> k \<Longrightarrow> map_of (obj_set obj k v) k' = map_of obj k'"
  by (simp add: obj_set_def update_conv')

lemma keys_obj_set:
  "k \<noteq> js ''__proto__'' \<Longrightarrow> fst ` set (obj_set obj k v) = insert k (fst ` set obj)"
  by (simp add: obj_set_def dom_update)

lemma distinct_obj_set:
  "distinct (map fst obj) \<Longrightarrow> distinct (map fst (obj_set obj k v))"
  by (simp add: obj_set_def distinct_update)

lemma set_update_subset: "set (AList.update k v al) \<subseteq> insert (k, v) (set al)"
  by (induction al) auto

lemma set_obj_set_subset: "set (obj_set obj k v) \<subseteq> insert (k, v) (set obj)"
  using set_update_subset [of k v obj] by (auto simp: obj_set_def)

lemma update_fresh: "k \<notin> fst ` set al \<Longrightarrow> AList.update k v al = al @ [(k, v)]"
  by (induction al) auto

lemma foldl_obj_set_fresh:
  "length hs = length cs \<Longrightarrow> distinct hs \<Longrightarrow> js ''__proto__'' \<notin> set hs \<Longrightarrow>
   set hs \<inter> fst ` set obj = {} \<Longrightarrow>
   foldl (\<lambda>obj (h, c). obj_set obj h c) obj (zip hs cs) = obj @ zip hs cs"
proof (induction hs cs arbitrary: obj rule: list_induct2)
  case Nil
  show ?case by simp
next
  case (Cons h hs c cs)
  from Cons.prems have fresh: "h \<notin> fst ` set obj" and np: "h \<noteq> js ''__proto__''" by auto
  then have step: "obj_set obj h c = obj @ [(h, c)]"
    by (simp add: obj_set_def update_fresh)
  from Cons.prems have "set hs \<inter> fst ` set (obj @ [(h, c)]) = {}" by auto
  with Cons.IH [of "obj @ [(h, c)]"] Cons.prems show ?case
    by (simp add: step)
qed

lemma ownKeys_no_index:
  "\<forall>k \<in> set (map fst obj). \<not> isArrayIndex k \<Longrightarrow> ownKeys obj = map fst obj"
  by (simp add: ownKeys_def filter_empty_conv [THEN iffD2] filter_id_conv [THEN iffD2])

lemma distinct_key_once:
  "distinct (map fst xs) \<Longrightarrow> map_of xs k = Some v \<Longrightarrow> filter (\<lambda>kv. fst kv = k) xs = [(k, v)]"
proof (induction xs)
  case Nil
  then show ?case by simp
next
  case (Cons x xs)
  show ?case
  proof (cases "fst x = k")
    case True
    from Cons.prems(1) have "fst x \<notin> fst ` set xs" by simp
    with True have "\<forall>y \<in> set xs. fst y \<noteq> k" by blast
    then have "filter (\<lambda>kv. fst kv = k) xs = []" by (simp add: filter_empty_conv)
    with True Cons.prems show ?thesis by (cases x) simp
  next
    case False
    with Cons show ?thesis by (cases x) auto
  qed
qed

section \<open>Facts about the table materializer\<close>

lemma parseSingleTable_forRows:
  "parseSingleTable t = forRows (tableHeaders t) (tableRows t) []"
  by (simp add: parseSingleTable_def tableHeaders_def tableRows_def trimmedText_def [abs_def] Let_def)

lemma forRows_acc: "forRows headers rows acc = acc @ forRows headers rows []"
proof (induction rows arbitrary: acc)
  case Nil
  show ?case by simp
next
  case (Cons row rows)
  have "forRows headers rows (acc @ [x]) = acc @ forRows headers rows [x]" for x
    using Cons [of "acc @ [x]"] Cons [of "[x]"] by simp
  with Cons [of acc] show ?case
    by (simp add: Let_def)
qed

lemma forRows_append:
  "forRows headers (xs @ ys) acc = forRows headers ys (forRows headers xs acc)"
  by (induction xs arbitrary: acc) (simp_all add: Let_def)

lemma forRows_Cons_keep:
  "length (rowCells row) = length headers \<Longrightarrow>
   forRows headers (row # rows) [] = forEachTd headers 0 (rowCells row) [] # forRows headers rows []"
  using forRows_acc [of headers rows "[forEachTd headers 0 (rowCells row) []]"]
  by (simp add: rowCells_def Let_def)

lemma forRows_Cons_drop:
  "length (rowCells row) \<noteq> length headers \<Longrightarrow>
   forRows headers (row # rows) acc = forRows headers rows acc"
  by (simp add: rowCells_def Let_def)

lemma forRows_Cons:
  "forRows hs (r # rows) acc =
     (if length (rowCells r) = length hs
      then forRows hs rows (acc @ [forEachTd hs 0 (rowCells r) []])
      else forRows hs rows acc)"
  by (simp add: forRows.simps(2) rowCells_def Let_def)

declare forRows.simps(2) [simp del]

lemma forRows_filter:
  "forRows headers rows [] =
     map (\<lambda>row. forEachTd headers 0 (rowCells row) [])
       (filter (\<lambda>row. length (rowCells row) = length headers) rows)"
proof (induction rows)
  case Nil
  show ?case by simp
next
  case (Cons row rows)
  show ?case
  proof (cases "length (rowCells row) = length headers")
    case True
    with Cons show ?thesis by (simp add: forRows_Cons_keep)
  next
    case False
    with Cons show ?thesis by (simp add: forRows_Cons_drop)
  qed
qed

lemma forEachTd_foldl:
  "i + length tds \<le> length headers \<Longrightarrow>
   forEachTd headers i tds rowObj =
     foldl (\<lambda>obj (h, c). obj_set obj h c) rowObj (zip (drop i headers) (map trimmedText tds))"
proof (induction tds arbitrary: i rowObj)
  case Nil
  show ?case by simp
next
  case (Cons td tds)
  then have i: "i < length headers" by simp
  then have d: "drop i headers = headers ! i # drop (Suc i) headers"
    by (simp add: Cons_nth_drop_Suc)
  from Cons.prems have "Suc i + length tds \<le> length headers" by simp
  from Cons.IH [OF this] show ?case
    by (simp add: d trimmedText_def)
qed

lemma forEachTd_distinct:
  assumes "length tds = length headers" "distinct headers" "js ''__proto__'' \<notin> set headers"
  shows "forEachTd headers 0 tds [] = zip headers (map trimmedText tds)"
  using assms forEachTd_foldl [of 0 tds headers "[]"]
    foldl_obj_set_fresh [of headers "map trimmedText tds" "[]"]
  by simp

text \<open>The materializer reads the nodes below the table, never their positions.\<close>

lemma findAll_nodes_aux:
  "map node (findAllNode test p n sibs) = map node (findAllNode test p' n sibs')"
  "map node (findAllList test p i cs) = map node (findAllList test p' i' cs)"
proof (induction test p n sibs and test p i cs arbitrary: p' sibs' and p' i'
    rule: findAllNode_findAllList.induct)
  case (1 test p t name cs sibs)
  from 1 [of p' 0] show ?case by simp
next
  case (2 test p cs sibs)
  from 2 [of p' 0] show ?case by simp
next
  case (3 test p cs sibs)
  from 3 [of p' 0] show ?case by simp
next
  case (8 test p i c cs)
  from 8(1) [of "i' # p'" cs] 8(2) [of p' "Suc i'"] show ?case by simp
qed simp_all

lemma findAll_nodes:
  "node r = node r' \<Longrightarrow> map node (findAll test r) = map node (findAll test r')"
  using findAll_nodes_aux(1) [of test "ident r" "node r" "following r" "ident r'" "following r'"]
  by (simp add: findAll_def)

lemma forEachTd_nodes:
  "map node tds = map node tds' \<Longrightarrow> forEachTd hs i tds obj = forEachTd hs i tds' obj"
proof (induction tds arbitrary: tds' i obj)
  case Nil
  then show ?case by simp
next
  case (Cons td tds)
  then obtain td' tds'' where "tds' = td' # tds''" "node td = node td'" "map node tds = map node tds''"
    by (cases tds') auto
  with Cons.IH show ?case by simp
qed

lemma rowCells_nodes:
  "node r = node r' \<Longrightarrow> map node (rowCells r) = map node (rowCells r')"
  unfolding rowCells_def by (rule findAll_nodes)

lemma forRows_nodes:
  "map node rows = map node rows' \<Longrightarrow> forRows hs rows acc = forRows hs rows' acc"
proof (induction rows arbitrary: rows' acc)
  case Nil
  then show ?case by simp
next
  case (Cons r rows)
  then obtain r' rows'' where r': "rows' = r' # rows''" "node r = node r'"
      "map node rows = map node rows''"
    by (cases rows') auto
  from rowCells_nodes [OF r'(2)] have m: "map node (rowCells r) = map node (rowCells r')" .
  have "length (map node (rowCells r)) = length (map node (rowCells r'))"
    by (simp only: m)
  then have l: "length (rowCells r) = length (rowCells r')"
    by (simp only: length_map)
  have e: "forEachTd hs 0 (rowCells r) [] = forEachTd hs 0 (rowCells r') []"
    using m by (rule forEachTd_nodes)
  have ih: "forRows hs rows acc' = forRows hs rows'' acc'" for acc'
    using r'(3) by (rule Cons.IH)
  show ?case
    unfolding r'(1) forRows_Cons l e ih ..
qed

lemma tableHeaders_nodes:
  "tableHeaders r = map (\<lambda>n. trim (textContent n)) (map node (findAll (isTagNamed (js ''th'')) r))"
  by (simp add: tableHeaders_def trimmedText_def [abs_def] comp_def)

lemma parseSingleTable_nodes:
  assumes n: "node r = node r'"
  shows "parseSingleTable r = parseSingleTable r'"
proof -
  have h: "tableHeaders r = tableHeaders r'"
    unfolding tableHeaders_nodes findAll_nodes [OF n] ..
  have "map node (tableRows r) = map node (tableRows r')"
    unfolding tableRows_def using n by (rule findAll_nodes)
  then have "forRows (tableHeaders r') (tableRows r) [] = forRows (tableHeaders r') (tableRows r') []"
    by (rule forRows_nodes)
  then show ?thesis
    unfolding parseSingleTable_forRows h .
qed

section \<open>Facts about the sibling scan\<close>

lemma findNextTableSibling_chain:
  "nextAll s = ss \<Longrightarrow> findNextTableSibling s = Some (scanTable ss)"
  by (simp add: findNextTableSibling_eq)

lemma scanTable_append_skip:
  "\<forall>s \<in> set pre. \<not> stopsScan s \<Longrightarrow> scanTable (pre @ rest) = scanTable rest"
  by (induction pre) (simp_all add: stopsScan_def)

lemma isTagNamed_inj: "isTagNamed a n \<Longrightarrow> isTagNamed b n \<Longrightarrow> a = b"
  by (cases n) (simp_all add: isTagNamed_def)

lemma table_not_heading:
  "isTagNamed (js ''table'') n \<Longrightarrow> \<not> isTagNamed (js ''h2'') n \<and> \<not> isTagNamed (js ''h1'') n"
proof -
  have "js ''table'' \<noteq> js ''h2''" "js ''table'' \<noteq> js ''h1''" by (simp_all add: js_def)
  then show "isTagNamed (js ''table'') n \<Longrightarrow> ?thesis"
    using isTagNamed_inj by blast
qed

lemma scanTable_no_table:
  "\<forall>s \<in> set ss. \<not> isTagNamed (js ''table'') (node s) \<Longrightarrow> scanTable ss = None"
  by (induction ss) simp_all

lemma scanTable_heading_first:
  "\<forall>s \<in> set pre. \<not> isTagNamed (js ''table'') (node s) \<Longrightarrow>
   isTagNamed (js ''h2'') (node h) \<or> isTagNamed (js ''h1'') (node h) \<Longrightarrow>
   scanTable (pre @ h # post) = None"
  by (induction pre) auto

lemma scanTable_nodes: "map_option node (scanTable ss) = scanNodes (map node ss)"
  by (induction ss) simp_all

lemma scanNodes_heading:
  "isTagNamed (js ''h1'') h \<Longrightarrow> scanNodes (ns @ h # rest) = scanNodes ns"
  by (induction ns) simp_all

section \<open>Facts about the section loop\<close>

lemma walkRefs_Cons:
  "walkRefs b (s # ss) sub =
     (if sameNode s b then sub
      else if isTagNamed (js ''h2'') (node s) \<and> trimmedText s \<in> set H2_WHITELIST then
        (case scanTable ss of
           Some t \<Rightarrow> walkRefs b ss (obj_set sub (trimmedText s) (parseSingleTable t))
         | None \<Rightarrow> walkRefs b ss sub)
      else walkRefs b ss sub)"
  by (simp add: trimmedText_def split: option.split)

declare walkRefs.simps(2) [simp del]

lemma sectionLoop_nextHeading:
  "sectionLoop (nextHeading post) (nextSibling h) [] = Some (walkRefs (nextHeading post) (nextAll h) [])"
  by (rule sectionLoop_eq)

lemma walkRefs_keys_subset:
  "fst ` set (walkRefs b ss sub) \<subseteq> fst ` set sub \<union> set H2_WHITELIST"
proof (induction ss arbitrary: sub)
  case Nil
  show ?case by simp
next
  case (Cons s ss)
  have step: "fst ` set (walkRefs b ss (obj_set sub k v)) \<subseteq> fst ` set sub \<union> set H2_WHITELIST"
    if "k \<in> set H2_WHITELIST" for k v
  proof -
    from that have "k \<noteq> js ''__proto__''" using proto_notin_H2 by auto
    then have "fst ` set (obj_set sub k v) = insert k (fst ` set sub)" by (rule keys_obj_set)
    with Cons [of "obj_set sub k v"] that show ?thesis by auto
  qed
  show ?case
    using Cons [of sub] step by (auto simp: walkRefs_Cons split: option.split)
qed

lemma walkRefs_map_of_other:
  "\<forall>s \<in> set ss. trimmedText s \<noteq> k \<Longrightarrow> map_of (walkRefs b ss sub) k = map_of sub k"
proof (induction ss arbitrary: sub)
  case Nil
  show ?case by simp
next
  case (Cons s ss)
  then have ne: "k \<noteq> trimmedText s" and rest: "\<forall>s \<in> set ss. trimmedText s \<noteq> k" by auto
  have "map_of (walkRefs b ss (obj_set sub (trimmedText s) v)) k = map_of sub k" for v
    using Cons.IH [OF rest, of "obj_set sub (trimmedText s) v"] ne
    by (simp add: map_of_obj_set_other)
  with Cons.IH [OF rest, of sub] show ?case
    by (simp add: walkRefs_Cons split: option.split)
qed

lemma walkRefs_keys:
  "isChain ss \<Longrightarrow>
   fst ` set (walkRefs b ss sub)
     = fst ` set sub
       \<union> trimmedText ` {s \<in> set (takeWhile (\<lambda>s. \<not> sameNode s b) ss). storesTable s}"
proof (induction ss arbitrary: sub)
  case Nil
  show ?case by simp
next
  case (Cons s ss)
  then have ch: "isChain ss" and nx: "nextAll s = ss" by simp_all
  have f: "findNextTableSibling s = Some (scanTable ss)"
    using nx by (rule findNextTableSibling_chain)
  show ?case
  proof (cases "sameNode s b")
    case True
    then show ?thesis by (simp add: walkRefs_Cons)
  next
    case nb: False
    show ?thesis
    proof (cases "storesTable s")
      case True
      then obtain t where t: "scanTable ss = Some t"
        and h2: "isTagNamed (js ''h2'') (node s)" and wl: "trimmedText s \<in> set H2_WHITELIST"
        using f by (auto simp: storesTable_def)
      from wl have "trimmedText s \<noteq> js ''__proto__''" using proto_notin_H2 by auto
      then have k: "fst ` set (obj_set sub (trimmedText s) (parseSingleTable t))
          = insert (trimmedText s) (fst ` set sub)"
        by (rule keys_obj_set)
      have w: "walkRefs b (s # ss) sub
          = walkRefs b ss (obj_set sub (trimmedText s) (parseSingleTable t))"
        using nb h2 wl t by (simp add: walkRefs_Cons)
      from nb True show ?thesis
        unfolding w Cons.IH [OF ch] k by auto
    next
      case False
      then have w: "walkRefs b (s # ss) sub = walkRefs b ss sub"
        using nb f by (auto simp: walkRefs_Cons storesTable_def split: option.split)
      from nb False show ?thesis
        unfolding w Cons.IH [OF ch] by auto
    qed
  qed
qed

lemma walkRefs_map_of_kept:
  "isChain ss \<Longrightarrow>
   \<forall>s' \<in> set (takeWhile (\<lambda>s'. \<not> sameNode s' b) ss). \<not> (storesTable s' \<and> trimmedText s' = k) \<Longrightarrow>
   map_of (walkRefs b ss sub) k = map_of sub k"
proof (induction ss arbitrary: sub)
  case Nil
  show ?case by simp
next
  case (Cons s ss)
  then have ch: "isChain ss" and nx: "nextAll s = ss" by simp_all
  have f: "findNextTableSibling s = Some (scanTable ss)"
    using nx by (rule findNextTableSibling_chain)
  show ?case
  proof (cases "sameNode s b")
    case True
    then show ?thesis by (simp add: walkRefs_Cons)
  next
    case nb: False
    with Cons.prems(2) have here: "\<not> (storesTable s \<and> trimmedText s = k)"
      and rest: "\<forall>s' \<in> set (takeWhile (\<lambda>s'. \<not> sameNode s' b) ss).
                   \<not> (storesTable s' \<and> trimmedText s' = k)"
      by simp_all
    note ih = Cons.IH [OF ch rest]
    show ?thesis
    proof (cases "storesTable s")
      case True
      then obtain t where t: "scanTable ss = Some t"
        and h2: "isTagNamed (js ''h2'') (node s)" and wl: "trimmedText s \<in> set H2_WHITELIST"
        using f by (auto simp: storesTable_def)
      from True here have ne: "k \<noteq> trimmedText s" by auto
      have w: "walkRefs b (s # ss) sub
          = walkRefs b ss (obj_set sub (trimmedText s) (parseSingleTable t))"
        using nb h2 wl t by (simp add: walkRefs_Cons)
      show ?thesis
        unfolding w ih using ne by (rule map_of_obj_set_other)
    next
      case False
      then have w: "walkRefs b (s # ss) sub = walkRefs b ss sub"
        using nb f by (auto simp: walkRefs_Cons storesTable_def split: option.split)
      show ?thesis
        unfolding w by (rule ih)
    qed
  qed
qed

lemma walkNodes_Cons:
  "walkNodes (node s # ns) sub =
     (if isTagNamed (js ''h2'') (node s) \<and> trimmedText s \<in> set H2_WHITELIST then
        (case scanNodes ns of
           Some t \<Rightarrow> walkNodes ns (obj_set sub (trimmedText s) (parseSingleTable (rootRef t)))
         | None \<Rightarrow> walkNodes ns sub)
      else walkNodes ns sub)"
  by (simp add: trimmedText_def split: option.split)

lemma walkRefs_step_nodes:
  assumes sn: "scanNodes (map node rest) = scanNodes ns"
    and nb: "\<not> sameNode s b"
    and ih: "\<And>sub. walkRefs b rest sub = walkNodes ns sub"
  shows "walkRefs b (s # rest) sub = walkNodes (node s # ns) sub"
proof (cases "isTagNamed (js ''h2'') (node s) \<and> trimmedText s \<in> set H2_WHITELIST")
  case False
  then have c: "(isTagNamed (js ''h2'') (node s) \<and> trimmedText s \<in> set H2_WHITELIST) = False"
    by blast
  show ?thesis
    unfolding walkRefs_Cons walkNodes_Cons c using nb ih by (simp del: walkNodes.simps(2))
next
  case True
  show ?thesis
  proof (cases "scanTable rest")
    case None
    then have "scanNodes ns = None"
      using scanTable_nodes [of rest] sn by simp
    with None True nb ih show ?thesis
      by (simp add: walkRefs_Cons walkNodes_Cons del: walkNodes.simps(2))
  next
    case (Some t)
    then have n: "scanNodes ns = Some (node t)"
      using scanTable_nodes [of rest] sn by simp
    have p: "parseSingleTable t = parseSingleTable (rootRef (node t))"
      by (rule parseSingleTable_nodes) (simp add: rootRef_def)
    from Some True nb ih n show ?thesis
      by (simp add: walkRefs_Cons walkNodes_Cons p del: walkNodes.simps(2))
  qed
qed

lemma walkRefs_no_boundary:
  "walkRefs None ss sub = walkNodes (map node ss) sub"
proof (induction ss arbitrary: sub)
  case Nil
  show ?case by simp
next
  case (Cons s ss)
  have "walkRefs None (s # ss) sub = walkNodes (node s # map node ss) sub"
    by (rule walkRefs_step_nodes) (simp_all add: sameNode_def Cons)
  then show ?case by simp
qed

lemma walkRefs_boundary:
  assumes "sameNode r2 b" and "isTagNamed (js ''h1'') (node r2)"
    and "\<forall>s \<in> set pre. \<not> sameNode s b"
  shows "walkRefs b (pre @ r2 # post) sub = walkNodes (map node pre) sub"
  using assms(3)
proof (induction pre arbitrary: sub)
  case Nil
  from assms(1) show ?case by (simp add: walkRefs_Cons)
next
  case (Cons s pre)
  from Cons.prems have nb: "\<not> sameNode s b" and rest: "\<forall>s \<in> set pre. \<not> sameNode s b" by auto
  have sn: "scanNodes (map node (pre @ r2 # post)) = scanNodes (map node pre)"
    using scanNodes_heading [OF assms(2), of "map node pre" "map node post"] by simp
  have "walkRefs b (s # pre @ r2 # post) sub = walkNodes (node s # map node pre) sub"
    using sn nb Cons.IH [OF rest] by (rule walkRefs_step_nodes)
  then show ?case by simp
qed

section \<open>Facts about the loop over the top-level headings\<close>

lemma sectionsFrom_Cons:
  "sectionsFrom (h # hs) parsed =
     (if trimmedText h \<notin> set H1_WHITELIST then sectionsFrom hs parsed
      else sectionsFrom hs
             (obj_set (obj_set parsed (trimmedText h) []) (trimmedText h)
                (walkRefs (nextHeading hs) (nextAll h) [])))"
  by (simp add: trimmedText_def nextHeading_def)

declare sectionsFrom.simps(2) [simp del]

lemma sectionsFrom_none:
  "\<forall>h \<in> set hs. trimmedText h \<notin> set H1_WHITELIST \<Longrightarrow> sectionsFrom hs parsed = parsed"
  by (induction hs) (simp_all add: sectionsFrom_Cons)

lemma sectionsFrom_whitelisted:
  "whitelistedKeys parsed \<Longrightarrow> whitelistedKeys (sectionsFrom hs parsed)"
proof (induction hs arbitrary: parsed)
  case Nil
  then show ?case by simp
next
  case (Cons h hs)
  show ?case
  proof (cases "trimmedText h \<in> set H1_WHITELIST")
    case False
    with Cons show ?thesis by (simp add: sectionsFrom_Cons)
  next
    case True
    let ?a = "trimmedText h"
    let ?w = "walkRefs (nextHeading hs) (nextAll h) []"
    have w: "\<forall>(k2, v) \<in> set ?w. k2 \<in> set H2_WHITELIST"
      using walkRefs_keys_subset [of "nextHeading hs" "nextAll h" "[]"] by force
    have "set (obj_set (obj_set parsed ?a []) ?a ?w) \<subseteq> insert (?a, ?w) (insert (?a, []) (set parsed))"
      using set_obj_set_subset [of "obj_set parsed ?a []" ?a ?w] set_obj_set_subset [of parsed ?a "[]"]
      by blast
    with Cons.prems True w have "whitelistedKeys (obj_set (obj_set parsed ?a []) ?a ?w)"
      unfolding whitelistedKeys_def by fastforce
    from Cons.IH [OF this] True show ?thesis by (simp add: sectionsFrom_Cons)
  qed
qed

lemma sectionsFrom_map_of_other:
  "\<forall>h \<in> set hs. trimmedText h \<noteq> a \<Longrightarrow> map_of (sectionsFrom hs parsed) a = map_of parsed a"
proof (induction hs arbitrary: parsed)
  case Nil
  show ?case by simp
next
  case (Cons h hs)
  then have ne: "a \<noteq> trimmedText h" and rest: "\<forall>h \<in> set hs. trimmedText h \<noteq> a" by auto
  show ?case
    using Cons.IH [OF rest] ne by (simp add: sectionsFrom_Cons map_of_obj_set_other)
qed

lemma sectionsFrom_last_occurrence:
  assumes "trimmedText h \<in> set H1_WHITELIST"
    and "\<forall>h' \<in> set post. trimmedText h' \<noteq> trimmedText h"
  shows "map_of (sectionsFrom (pre @ h # post) parsed) (trimmedText h)
           = Some (walkRefs (nextHeading post) (nextAll h) [])"
proof (induction pre arbitrary: parsed)
  case Nil
  from assms(1) have "trimmedText h \<noteq> js ''__proto__''" using proto_notin_H1 by auto
  with assms show ?case
    by (simp add: sectionsFrom_Cons sectionsFrom_map_of_other map_of_obj_set_same)
next
  case (Cons x pre)
  then show ?case by (simp add: sectionsFrom_Cons)
qed

lemma sectionsFrom_distinct:
  "distinct (map fst parsed) \<Longrightarrow> distinct (map fst (sectionsFrom hs parsed))"
  by (induction hs arbitrary: parsed) (simp_all add: sectionsFrom_Cons distinct_obj_set)

lemma sectionsFrom_keys:
  "fst ` set (sectionsFrom hs parsed)
     = fst ` set parsed \<union> {a \<in> trimmedText ` set hs. a \<in> set H1_WHITELIST}"
proof (induction hs arbitrary: parsed)
  case Nil
  show ?case by simp
next
  case (Cons h hs)
  show ?case
  proof (cases "trimmedText h \<in> set H1_WHITELIST")
    case False
    with Cons [of parsed] show ?thesis
      by (auto simp: sectionsFrom_Cons)
  next
    case True
    then have np: "trimmedText h \<noteq> js ''__proto__''" using proto_notin_H1 by auto
    have k: "fst ` set (obj_set (obj_set parsed (trimmedText h) []) (trimmedText h) w)
        = insert (trimmedText h) (fst ` set parsed)" for w
      by (simp add: keys_obj_set [OF np])
    have e: "sectionsFrom (h # hs) parsed
        = sectionsFrom hs (obj_set (obj_set parsed (trimmedText h) []) (trimmedText h)
            (walkRefs (nextHeading hs) (nextAll h) []))"
      using True by (simp add: sectionsFrom_Cons)
    from True show ?thesis
      unfolding e Cons k by auto
  qed
qed

section \<open>Example documents\<close>

definition el :: "string \<Rightarrow> node list \<Rightarrow> node" where
  "el name cs = Element Tag (js name) cs"

definition tx :: "string \<Rightarrow> node" where
  "tx s = Text (js s)"

definition alignedTable :: ref where
  "alignedTable = rootRef (el ''table''
     [el ''thead'' [el ''tr'' [el ''th'' [tx ''Header1''], el ''th'' [tx '' Header2 '']]],
      el ''tbody''
        [el ''tr'' [el ''td'' [tx ''Data1''], el ''td'' [tx ''Data2'']],
         el ''tr'' [el ''td'' [tx ''only'']],
         el ''tr'' [el ''td'' [tx ''Data3''], el ''td'' [el ''b'' [tx ''Data''], tx ''4 '']]]])"

definition duplicateHeaderTable :: ref where
  "duplicateHeaderTable = rootRef (el ''table''
     [el ''tr'' [el ''th'' [tx ''Name''], el ''th'' [tx ''Name'']],
      el ''tr'' [el ''td'' [tx ''first''], el ''td'' [tx ''second'']]])"

definition protoHeaderTable :: ref where
  "protoHeaderTable = rootRef (el ''table''
     [el ''tr'' [el ''th'' [tx ''__proto__''], el ''th'' [tx ''Name'']],
      el ''tr'' [el ''td'' [tx ''first''], el ''td'' [tx ''second'']]])"

definition indexHeaderTable :: ref where
  "indexHeaderTable = rootRef (el ''table''
     [el ''tr'' [el ''th'' [tx ''2''], el ''th'' [tx ''1'']],
      el ''tr'' [el ''td'' [tx ''first''], el ''td'' [tx ''second'']]])"

definition headerlessTable :: ref where
  "headerlessTable = rootRef (el ''table''
     [el ''tr'' [], el ''tr'' [el ''td'' [tx ''x'']], el ''tr'' [tx ''y'']])"

definition oneRowTable :: "string \<Rightarrow> string \<Rightarrow> node" where
  "oneRowTable h d = el ''table'' [el ''tr'' [el ''th'' [tx h]], el ''tr'' [el ''td'' [tx d]]]"

definition reportDoc :: node where
  "reportDoc = Document
     [el ''h1'' [tx ''Call of Duty: Vanguard''],
      tx '' '',
      el ''h2'' [tx '' PromoCodes ''],
      el ''p'' [tx ''codes''],
      oneRowTable ''Code'' ''ABC'',
      oneRowTable ''Code'' ''ignored'',
      el ''h2'' [tx ''Unlisted''],
      oneRowTable ''X'' ''1'',
      el ''h2'' [tx ''Sessions Data (reverse chronological)''],
      el ''h1'' [tx ''Not a game''],
      el ''h2'' [tx ''PromoCodes''],
      oneRowTable ''Code'' ''skipped'',
      el ''h1'' [tx ''Call of Duty: Warzone 2.0''],
      el ''h2'' [tx ''Zombies Data (reverse chronological)''],
      el ''table'' []]"

definition scenarioE :: node where
  "scenarioE = Document
     [el ''h1'' [tx ''Call of Duty: Black Ops 6''],
      el ''h2'' [tx ''PromoCodes''],
      oneRowTable ''Code'' ''ABC'',
      el ''h1'' [tx ''Call of Duty: Vanguard''],
      el ''h2'' [tx ''Sessions Data (reverse chronological)''],
      oneRowTable ''Session'' ''s1'']"

definition sameTextDoc :: node where
  "sameTextDoc = Document
     [el ''h1'' [tx ''Call of Duty: Vanguard''],
      el ''h2'' [tx ''PromoCodes''],
      oneRowTable ''Code'' ''ABC'',
      el ''h1'' [tx ''Call of Duty: Vanguard''],
      el ''h2'' [tx ''Sessions Data (reverse chronological)''],
      oneRowTable ''Session'' ''s1'']"

definition repeatedDoc :: node where
  "repeatedDoc = Document
     [el ''h1'' [tx ''Call of Duty: Vanguard''],
      el ''h2'' [tx ''PromoCodes''],
      oneRowTable ''Code'' ''ABC'',
      el ''h1'' [tx ''Call of Duty: Black Ops 6''],
      el ''h2'' [tx ''PromoCodes''],
      oneRowTable ''Code'' ''DEF'',
      el ''h1'' [tx '' Call of Duty: Vanguard''],
      el ''h2'' [tx ''Sessions Data (reverse chronological)''],
      oneRowTable ''Session'' ''s1'']"

definition unlistedDoc :: node where
  "unlistedDoc = Document
     [el ''h1'' [tx ''Not a game''],
      el ''h2'' [tx ''PromoCodes''],
      oneRowTable ''Code'' ''ABC'']"

text \<open>
  A whitelisted sub-level heading of \<open>reportDoc\<close> that the next top-level heading follows at
  once.
\<close>

definition sessionsHeading :: ref where
  "sessionsHeading = nextAll (h1Elements reportDoc ! 0) ! 7"

text \<open>
  The children of a document, as references: a whitelisted sub-level heading followed by a
  paragraph and a table without rows, a sub-level heading followed by a top-level heading
  and then a table, and that table, followed by a paragraph only.
\<close>

definition scanSiblings :: "ref list" where
  "scanSiblings = chainFrom 0 []
     [el ''h2'' [tx ''PromoCodes''],
      el ''p'' [tx ''intro''],
      el ''table'' [],
      el ''h2'' [tx ''B''],
      el ''h1'' [tx ''C''],
      oneRowTable ''K'' ''v'',
      el ''p'' [tx ''end'']]"

text \<open>
  The children of a document whose two sections both have the sub-level heading
  \<open>PromoCodes\<close>: the first is followed by a table without rows, then comes a top-level
  heading, and the second is followed by a table with one row.
\<close>

definition storeSiblings :: "ref list" where
  "storeSiblings = chainFrom 0 []
     [el ''h2'' [tx ''PromoCodes''],
      el ''table'' [],
      el ''h1'' [tx ''Call of Duty: Vanguard''],
      el ''h2'' [tx ''PromoCodes''],
      oneRowTable ''Code'' ''ABC'']"

text \<open>The definitions that evaluate the model on a concrete document.\<close>

lemmas model_defs =
  js_def trim_def isWhiteSpace_def H1_WHITELIST_def H2_WHITELIST_def obj_set_def
  nextSibling_def rootRef_def isTagNamed_def findAll_def parseSingleTable_def
  sameNode_def trimmedText_def tableHeaders_def tableRows_def rowCells_def h1Elements_def
  nextHeading_def nextAll_def forRows.simps(2) walkRefs_Cons sectionsFrom_Cons
  el_def tx_def oneRowTable_def

section \<open>Evaluations of the example documents\<close>

lemma reportDoc_result:
  "parseHtmlH1H2Tables reportDoc = Some
     [(js ''Call of Duty: Vanguard'', [(js ''PromoCodes'', [[(js ''Code'', js ''ABC'')]])]),
      (js ''Call of Duty: Warzone 2.0'', [(js ''Zombies Data (reverse chronological)'', [])])]"
  by (simp add: parseHtmlH1H2Tables_eq reportDoc_def model_defs)

lemma scenarioE_result:
  "parseHtmlH1H2Tables scenarioE = Some
     [(js ''Call of Duty: Black Ops 6'', [(js ''PromoCodes'', [[(js ''Code'', js ''ABC'')]])]),
      (js ''Call of Duty: Vanguard'',
         [(js ''Sessions Data (reverse chronological)'', [[(js ''Session'', js ''s1'')]])])]"
  by (simp add: parseHtmlH1H2Tables_eq scenarioE_def model_defs)

lemma sameTextDoc_result:
  "parseHtmlH1H2Tables sameTextDoc = Some
     [(js ''Call of Duty: Vanguard'',
         [(js ''Sessions Data (reverse chronological)'', [[(js ''Session'', js ''s1'')]])])]"
  by (simp add: parseHtmlH1H2Tables_eq sameTextDoc_def model_defs)

lemma repeatedDoc_result:
  "parseHtmlH1H2Tables repeatedDoc = Some
     [(js ''Call of Duty: Vanguard'',
         [(js ''Sessions Data (reverse chronological)'', [[(js ''Session'', js ''s1'')]])]),
      (js ''Call of Duty: Black Ops 6'', [(js ''PromoCodes'', [[(js ''Code'', js ''DEF'')]])])]"
  by (simp add: parseHtmlH1H2Tables_eq repeatedDoc_def model_defs)

lemma alignedTable_headers: "tableHeaders alignedTable = [js ''Header1'', js ''Header2'']"
  by (simp add: alignedTable_def model_defs)

lemma alignedTable_result:
  "parseSingleTable alignedTable =
     [[(js ''Header1'', js ''Data1''), (js ''Header2'', js ''Data2'')],
      [(js ''Header1'', js ''Data3''), (js ''Header2'', js ''Data4'')]]"
  by (simp add: alignedTable_def model_defs)

section \<open>Claims about the table materializer\<close>

text \<open>
  C1, amended. A table without row elements gives the empty sequence. A table without
  header cells gives one empty record for every row that has no data cell, and nothing
  for the other rows: it gives the empty sequence exactly when each of its rows has a data
  cell. In both cases, when the sibling scan of a whitelisted sub-level heading that the
  section loop visits has found the table, the loop stores what the materializer returned
  under the heading's key, also when that is the empty sequence: the key is present in
  what the loop returns, with that sequence as its value unless a later heading of the
  same section with the same text stores its own table.
\<close>

theorem empty_table_still_stored:
  "(tableRows t = [] \<longrightarrow> parseSingleTable t = [])
   \<and> (tableHeaders t = [] \<longrightarrow>
        parseSingleTable t = map (\<lambda>row. []) (filter (\<lambda>row. rowCells row = []) (tableRows t)))
   \<and> (findNextTableSibling s = Some (Some t) \<and> isTagNamed (js ''h2'') (node s)
        \<and> trimmedText s \<in> set H2_WHITELIST \<and> \<not> sameNode s b
      \<longrightarrow> sectionLoop b (Some s) sub
            = sectionLoop b (nextSibling s) (obj_set sub (trimmedText s) (parseSingleTable t))
          \<and> map_of (obj_set sub (trimmedText s) (parseSingleTable t)) (trimmedText s)
            = Some (parseSingleTable t)
          \<and> (\<exists>sub'. sectionLoop b (Some s) sub = Some sub'
                \<and> trimmedText s \<in> fst ` set sub'
                \<and> ((\<forall>s' \<in> set (sectionSiblings s b).
                        \<not> (storesTable s' \<and> trimmedText s' = trimmedText s))
                     \<longrightarrow> map_of sub' (trimmedText s) = Some (parseSingleTable t))))"
proof (intro conjI impI)
  show "parseSingleTable t = []" if "tableRows t = []"
    using that by (simp add: parseSingleTable_forRows)
  show "parseSingleTable t = map (\<lambda>row. []) (filter (\<lambda>row. rowCells row = []) (tableRows t))"
    if "tableHeaders t = []"
    using that by (simp add: parseSingleTable_forRows forRows_filter)
next
  let ?k = "trimmedText s"
  let ?sub0 = "obj_set sub ?k (parseSingleTable t)"
  assume a: "findNextTableSibling s = Some (Some t) \<and> isTagNamed (js ''h2'') (node s)
        \<and> trimmedText s \<in> set H2_WHITELIST \<and> \<not> sameNode s b"
  then have sc: "scanTable (nextAll s) = Some t"
    by (simp add: findNextTableSibling_eq)
  from a have np: "?k \<noteq> js ''__proto__''" using proto_notin_H2 by auto
  have w: "walkRefs b (s # nextAll s) sub = walkRefs b (nextAll s) ?sub0"
    using a sc by (simp add: walkRefs_Cons)
  show step: "sectionLoop b (Some s) sub = sectionLoop b (nextSibling s) ?sub0"
    by (simp only: sectionLoop_Some sectionLoop_eq w)
  show m: "map_of ?sub0 ?k = Some (parseSingleTable t)"
    using np by (rule map_of_obj_set_same)
  let ?sub' = "walkRefs b (nextAll s) ?sub0"
  have r: "sectionLoop b (Some s) sub = Some ?sub'"
    by (simp only: sectionLoop_Some w)
  have "?k \<in> fst ` set ?sub0"
    by (simp add: keys_obj_set [OF np])
  then have p: "?k \<in> fst ` set ?sub'"
    unfolding walkRefs_keys [OF isChain_nextAll] by blast
  have v: "(\<forall>s' \<in> set (sectionSiblings s b). \<not> (storesTable s' \<and> trimmedText s' = ?k))
      \<longrightarrow> map_of ?sub' ?k = Some (parseSingleTable t)"
    unfolding sectionSiblings_def
    using walkRefs_map_of_kept [OF isChain_nextAll, of b s ?k ?sub0] m by simp
  from r p v show "\<exists>sub'. sectionLoop b (Some s) sub = Some sub'
                \<and> trimmedText s \<in> fst ` set sub'
                \<and> ((\<forall>s' \<in> set (sectionSiblings s b).
                        \<not> (storesTable s' \<and> trimmedText s' = trimmedText s))
                     \<longrightarrow> map_of sub' (trimmedText s) = Some (parseSingleTable t))"
    by blast
qed

text \<open>
  The claim as stated fails for a table without header cells whose rows have no data
  cells: the counts are both zero, so each such row gives an empty record.
\<close>

theorem empty_table_still_stored_counterexample:
  "tableHeaders headerlessTable = []
   \<and> map (map trimmedText \<circ> rowCells) (tableRows headerlessTable) = [[], [js ''x''], []]
   \<and> parseSingleTable headerlessTable = [[], []]
   \<and> parseSingleTable headerlessTable \<noteq> []"
  by (simp add: headerlessTable_def model_defs)

theorem empty_table_still_stored_witness:
  "findNextTableSibling (storeSiblings ! 0) = Some (Some (storeSiblings ! 1))
   \<and> isTagNamed (js ''h2'') (node (storeSiblings ! 0))
   \<and> trimmedText (storeSiblings ! 0) = js ''PromoCodes''
   \<and> trimmedText (storeSiblings ! 0) \<in> set H2_WHITELIST
   \<and> \<not> sameNode (storeSiblings ! 0) (Some (storeSiblings ! 2))
   \<and> sectionSiblings (storeSiblings ! 0) (Some (storeSiblings ! 2)) = [storeSiblings ! 1]
   \<and> list_all (\<lambda>s'. \<not> (storesTable s' \<and> trimmedText s' = trimmedText (storeSiblings ! 0)))
        (sectionSiblings (storeSiblings ! 0) (Some (storeSiblings ! 2)))
   \<and> trimmedText (storeSiblings ! 3) = trimmedText (storeSiblings ! 0)
   \<and> tableRows (storeSiblings ! 1) = []
   \<and> tableHeaders (storeSiblings ! 1) = []
   \<and> parseSingleTable (storeSiblings ! 1) = []
   \<and> sectionLoop (Some (storeSiblings ! 2)) (Some (storeSiblings ! 0)) []
       = sectionLoop (Some (storeSiblings ! 2)) (nextSibling (storeSiblings ! 0))
           [(js ''PromoCodes'', [])]
   \<and> (\<exists>sub'. sectionLoop (Some (storeSiblings ! 2)) (Some (storeSiblings ! 0)) [] = Some sub'
         \<and> js ''PromoCodes'' \<in> fst ` set sub'
         \<and> map_of sub' (js ''PromoCodes'') = Some [])"
proof -
  let ?s = "storeSiblings ! 0" and ?t = "storeSiblings ! 1" and ?b = "Some (storeSiblings ! 2)"
  have found: "findNextTableSibling ?s = Some (Some ?t)"
    by (simp add: findNextTableSibling_eq storeSiblings_def model_defs)
  have h2: "isTagNamed (js ''h2'') (node ?s)"
    by (simp add: storeSiblings_def model_defs)
  have tx: "trimmedText ?s = js ''PromoCodes''"
    by (simp add: storeSiblings_def model_defs)
  have wl: "trimmedText ?s \<in> set H2_WHITELIST"
    by (simp add: storeSiblings_def model_defs)
  have nb: "\<not> sameNode ?s ?b"
    by (simp add: storeSiblings_def model_defs)
  have sibs: "sectionSiblings ?s ?b = [?t]"
    by (simp add: sectionSiblings_def storeSiblings_def model_defs)
  have nt: "\<not> isTagNamed (js ''h2'') (node ?t)"
    by (simp add: storeSiblings_def model_defs)
  then have kept: "list_all (\<lambda>s'. \<not> (storesTable s' \<and> trimmedText s' = trimmedText ?s))
        (sectionSiblings ?s ?b)"
    unfolding sibs by (simp add: storesTable_def)
  then have kept': "\<forall>s' \<in> set (sectionSiblings ?s ?b).
        \<not> (storesTable s' \<and> trimmedText s' = trimmedText ?s)"
    by (simp only: list_all_iff)
  have later: "trimmedText (storeSiblings ! 3) = trimmedText ?s"
    by (simp add: storeSiblings_def model_defs)
  have rows: "tableRows ?t = []"
    by (simp add: storeSiblings_def model_defs)
  have heads: "tableHeaders ?t = []"
    by (simp add: storeSiblings_def model_defs)
  note main = empty_table_still_stored [of ?t ?s ?b "[]"]
  from main rows have val: "parseSingleTable ?t = []"
    by blast
  have set0: "obj_set [] (js ''PromoCodes'') [] = [(js ''PromoCodes'', [])]"
    by (simp add: obj_set_def js_def)
  from main found h2 wl nb
  have step: "sectionLoop ?b (Some ?s) []
       = sectionLoop ?b (nextSibling ?s) (obj_set [] (trimmedText ?s) (parseSingleTable ?t))"
    by blast
  from main found h2 wl nb kept'
  have fin: "\<exists>sub'. sectionLoop ?b (Some ?s) [] = Some sub'
         \<and> trimmedText ?s \<in> fst ` set sub'
         \<and> map_of sub' (trimmedText ?s) = Some (parseSingleTable ?t)"
    by blast
  from step have step': "sectionLoop ?b (Some ?s) []
       = sectionLoop ?b (nextSibling ?s) [(js ''PromoCodes'', [])]"
    unfolding tx val set0 .
  from fin have fin': "\<exists>sub'. sectionLoop ?b (Some ?s) [] = Some sub'
         \<and> js ''PromoCodes'' \<in> fst ` set sub'
         \<and> map_of sub' (js ''PromoCodes'') = Some []"
    unfolding tx val .
  from found h2 tx wl nb sibs kept later rows heads val step' fin' show ?thesis
    by (intro conjI)
qed

text \<open>
  C3, amended. For a row with as many data cells as there are header cells, when the
  trimmed header texts are pairwise distinct and none of them is \<open>__proto__\<close>, the row's
  record is the list of the pairs (trimmed header \<open>i\<close>, trimmed cell \<open>i\<close>) in header order,
  so it has as many fields as there are headers; it stands in the output between the
  records of the rows before and those of the rows after. Its keys are also enumerated in
  header order when no header text is an array index.
\<close>

theorem parseSingleTable_aligned_row:
  assumes rows: "tableRows t = before @ row # after"
    and aligned: "length (rowCells row) = length (tableHeaders t)"
    and dist: "distinct (tableHeaders t)"
    and noproto: "js ''__proto__'' \<notin> set (tableHeaders t)"
  shows "parseSingleTable t
           = forRows (tableHeaders t) before []
             @ [zip (tableHeaders t) (map trimmedText (rowCells row))]
             @ forRows (tableHeaders t) after []
       \<and> length (zip (tableHeaders t) (map trimmedText (rowCells row))) = length (tableHeaders t)
       \<and> ((\<forall>h \<in> set (tableHeaders t). \<not> isArrayIndex h) \<longrightarrow>
            ownKeys (zip (tableHeaders t) (map trimmedText (rowCells row))) = tableHeaders t)"
proof -
  let ?hs = "tableHeaders t"
  let ?rec = "zip ?hs (map trimmedText (rowCells row))"
  have r: "forEachTd ?hs 0 (rowCells row) [] = ?rec"
    using aligned dist noproto by (rule forEachTd_distinct)
  have "parseSingleTable t = forRows ?hs (row # after) (forRows ?hs before [])"
    by (simp add: parseSingleTable_forRows rows forRows_append)
  also have "\<dots> = forRows ?hs before [] @ forRows ?hs (row # after) []"
    by (rule forRows_acc)
  also have "forRows ?hs (row # after) [] = ?rec # forRows ?hs after []"
    using aligned by (simp add: forRows_Cons_keep r)
  finally have a: "parseSingleTable t = forRows ?hs before [] @ [?rec] @ forRows ?hs after []"
    by simp
  have b: "length ?rec = length ?hs"
    using aligned by simp
  have m: "map fst ?rec = ?hs"
    using aligned by simp
  have c: "(\<forall>h \<in> set ?hs. \<not> isArrayIndex h) \<longrightarrow> ownKeys ?rec = ?hs"
    using ownKeys_no_index [of ?rec] by (simp add: m)
  from a b c show ?thesis by blast
qed

text \<open>
  The claim as stated fails for a repeated header text (the later column overwrites the
  earlier field, leaving one field for two columns), for the header text \<open>__proto__\<close> (no
  field is created) and, for the enumeration order, for header texts that are array
  indices (enumerated in numeric order).
\<close>

theorem parseSingleTable_aligned_row_counterexample:
  "tableHeaders duplicateHeaderTable = [js ''Name'', js ''Name'']
   \<and> map (map trimmedText \<circ> rowCells) (tableRows duplicateHeaderTable) = [[], [js ''first'', js ''second'']]
   \<and> parseSingleTable duplicateHeaderTable = [[(js ''Name'', js ''second'')]]
   \<and> tableHeaders protoHeaderTable = [js ''__proto__'', js ''Name'']
   \<and> parseSingleTable protoHeaderTable = [[(js ''Name'', js ''second'')]]
   \<and> tableHeaders indexHeaderTable = [js ''2'', js ''1'']
   \<and> parseSingleTable indexHeaderTable = [[(js ''2'', js ''first''), (js ''1'', js ''second'')]]
   \<and> map ownKeys (parseSingleTable indexHeaderTable) = [[js ''1'', js ''2'']]"
proof -
  have dup: "tableHeaders duplicateHeaderTable = [js ''Name'', js ''Name'']
     \<and> map (map trimmedText \<circ> rowCells) (tableRows duplicateHeaderTable)
         = [[], [js ''first'', js ''second'']]
     \<and> parseSingleTable duplicateHeaderTable = [[(js ''Name'', js ''second'')]]"
    by (simp add: duplicateHeaderTable_def model_defs)
  have proto: "tableHeaders protoHeaderTable = [js ''__proto__'', js ''Name'']
     \<and> parseSingleTable protoHeaderTable = [[(js ''Name'', js ''second'')]]"
    by (simp add: protoHeaderTable_def model_defs)
  have idx: "tableHeaders indexHeaderTable = [js ''2'', js ''1'']"
    by (simp add: indexHeaderTable_def model_defs)
  have idxv: "parseSingleTable indexHeaderTable
      = [[(js ''2'', js ''first''), (js ''1'', js ''second'')]]"
    by (simp add: indexHeaderTable_def model_defs)
  have keys: "map ownKeys [[(js ''2'', js ''first''), (js ''1'', js ''second'')]]
      = [[js ''1'', js ''2'']]"
    by (simp add: ownKeys_def isArrayIndex_def digitsValue_def isDigit_def js_def)
  from dup proto idx idxv keys show ?thesis
    by simp
qed

theorem parseSingleTable_aligned_row_witness:
  "tableRows alignedTable
     = take 1 (tableRows alignedTable) @ (tableRows alignedTable ! 1) # drop 2 (tableRows alignedTable)
   \<and> length (rowCells (tableRows alignedTable ! 1)) = length (tableHeaders alignedTable)
   \<and> distinct (tableHeaders alignedTable)
   \<and> js ''__proto__'' \<notin> set (tableHeaders alignedTable)
   \<and> list_all (\<lambda>h. \<not> isArrayIndex h) (tableHeaders alignedTable)
   \<and> parseSingleTable alignedTable
       = forRows (tableHeaders alignedTable) (take 1 (tableRows alignedTable)) []
         @ [zip (tableHeaders alignedTable) (map trimmedText (rowCells (tableRows alignedTable ! 1)))]
         @ forRows (tableHeaders alignedTable) (drop 2 (tableRows alignedTable)) []
   \<and> zip (tableHeaders alignedTable) (map trimmedText (rowCells (tableRows alignedTable ! 1)))
       = [(js ''Header1'', js ''Data1''), (js ''Header2'', js ''Data2'')]
   \<and> ownKeys (zip (tableHeaders alignedTable) (map trimmedText (rowCells (tableRows alignedTable ! 1))))
       = [js ''Header1'', js ''Header2'']"
proof -
  have rows: "tableRows alignedTable
     = take 1 (tableRows alignedTable) @ (tableRows alignedTable ! 1) # drop 2 (tableRows alignedTable)"
    by (simp add: alignedTable_def model_defs)
  have aligned: "length (rowCells (tableRows alignedTable ! 1)) = length (tableHeaders alignedTable)"
    by (simp add: alignedTable_def model_defs)
  have dist: "distinct (tableHeaders alignedTable)"
    by (simp add: alignedTable_def model_defs)
  have noproto: "js ''__proto__'' \<notin> set (tableHeaders alignedTable)"
    by (simp add: alignedTable_def model_defs)
  note hs = alignedTable_headers
  have noindex: "list_all (\<lambda>h. \<not> isArrayIndex h) (tableHeaders alignedTable)"
    unfolding hs by (simp add: isArrayIndex_def isDigit_def js_def)
  have val: "zip (tableHeaders alignedTable) (map trimmedText (rowCells (tableRows alignedTable ! 1)))
       = [(js ''Header1'', js ''Data1''), (js ''Header2'', js ''Data2'')]"
    by (simp add: alignedTable_def model_defs)
  from noindex have ni: "\<forall>h \<in> set (tableHeaders alignedTable). \<not> isArrayIndex h"
    by (simp add: list_all_iff)
  from parseSingleTable_aligned_row [OF rows aligned dist noproto] ni
  have "parseSingleTable alignedTable
       = forRows (tableHeaders alignedTable) (take 1 (tableRows alignedTable)) []
         @ [zip (tableHeaders alignedTable) (map trimmedText (rowCells (tableRows alignedTable ! 1)))]
         @ forRows (tableHeaders alignedTable) (drop 2 (tableRows alignedTable)) []"
    and "ownKeys (zip (tableHeaders alignedTable) (map trimmedText (rowCells (tableRows alignedTable ! 1))))
       = tableHeaders alignedTable"
    by blast+
  with rows aligned dist noproto noindex val hs show ?thesis
    by simp
qed

text \<open>
  C4. A row whose number of data cells differs from the number of header cells emits no
  record: the output is the output for the rows before it followed by the output for the
  rows after it, which is also the output of the same rows with that row deleted, each
  remaining row giving its record exactly when its own cell count matches.
\<close>

theorem parseSingleTable_drops_misaligned_rows:
  assumes rows: "tableRows t = before @ row # after"
    and mis: "length (rowCells row) \<noteq> length (tableHeaders t)"
  shows "parseSingleTable t
           = forRows (tableHeaders t) before [] @ forRows (tableHeaders t) after []
       \<and> parseSingleTable t = forRows (tableHeaders t) (before @ after) []
       \<and> parseSingleTable t
           = map (\<lambda>r. forEachTd (tableHeaders t) 0 (rowCells r) [])
               (filter (\<lambda>r. length (rowCells r) = length (tableHeaders t)) (before @ after))"
proof -
  let ?hs = "tableHeaders t"
  have a: "parseSingleTable t = forRows ?hs after (forRows ?hs before [])"
    using mis by (simp add: parseSingleTable_forRows rows forRows_append forRows_Cons_drop)
  have b: "forRows ?hs (before @ after) [] = forRows ?hs after (forRows ?hs before [])"
    by (simp add: forRows_append)
  have c: "forRows ?hs after (forRows ?hs before []) = forRows ?hs before [] @ forRows ?hs after []"
    by (rule forRows_acc)
  from a b c show ?thesis
    by (simp add: forRows_filter)
qed

theorem parseSingleTable_drops_misaligned_rows_witness:
  "tableRows alignedTable
     = take 2 (tableRows alignedTable) @ (tableRows alignedTable ! 2) # drop 3 (tableRows alignedTable)
   \<and> length (rowCells (tableRows alignedTable ! 2)) \<noteq> length (tableHeaders alignedTable)
   \<and> parseSingleTable alignedTable
     = forRows (tableHeaders alignedTable)
         (take 2 (tableRows alignedTable) @ drop 3 (tableRows alignedTable)) []
   \<and> parseSingleTable alignedTable =
       [[(js ''Header1'', js ''Data1''), (js ''Header2'', js ''Data2'')],
        [(js ''Header1'', js ''Data3''), (js ''Header2'', js ''Data4'')]]"
proof -
  have rows: "tableRows alignedTable
     = take 2 (tableRows alignedTable) @ (tableRows alignedTable ! 2) # drop 3 (tableRows alignedTable)"
    by (simp add: alignedTable_def model_defs)
  have mis: "length (rowCells (tableRows alignedTable ! 2)) \<noteq> length (tableHeaders alignedTable)"
    by (simp add: alignedTable_def model_defs)
  note val = alignedTable_result
  from parseSingleTable_drops_misaligned_rows [OF rows mis] rows mis val show ?thesis
    by blast
qed

section \<open>Claims about the sibling scan\<close>

text \<open>
  C5. The sibling scan returns the first next sibling that is a table element when no
  sub-level or top-level heading element and no table precedes it; it returns not-found
  when a sub-level or top-level heading element comes before any table; and it returns
  not-found when no next sibling is a table.
\<close>

theorem findNextTableSibling_first_table:
  "(nextAll start = pre @ t # post \<and> (\<forall>s \<in> set pre. \<not> stopsScan s)
      \<and> isTagNamed (js ''table'') (node t)
     \<longrightarrow> findNextTableSibling start = Some (Some t))
   \<and> (nextAll start = pre @ h # post \<and> (\<forall>s \<in> set pre. \<not> isTagNamed (js ''table'') (node s))
      \<and> (isTagNamed (js ''h2'') (node h) \<or> isTagNamed (js ''h1'') (node h))
     \<longrightarrow> findNextTableSibling start = Some None)
   \<and> ((\<forall>s \<in> set (nextAll start). \<not> isTagNamed (js ''table'') (node s))
     \<longrightarrow> findNextTableSibling start = Some None)"
proof (intro conjI impI)
  assume a: "nextAll start = pre @ t # post \<and> (\<forall>s \<in> set pre. \<not> stopsScan s)
      \<and> isTagNamed (js ''table'') (node t)"
  then have "scanTable (pre @ t # post) = scanTable (t # post)"
    by (simp add: scanTable_append_skip)
  also have "\<dots> = Some t"
    using a table_not_heading [of "node t"] by simp
  finally show "findNextTableSibling start = Some (Some t)"
    using a by (simp add: findNextTableSibling_eq)
next
  assume "nextAll start = pre @ h # post \<and> (\<forall>s \<in> set pre. \<not> isTagNamed (js ''table'') (node s))
      \<and> (isTagNamed (js ''h2'') (node h) \<or> isTagNamed (js ''h1'') (node h))"
  then show "findNextTableSibling start = Some None"
    by (simp add: findNextTableSibling_eq scanTable_heading_first)
next
  assume "\<forall>s \<in> set (nextAll start). \<not> isTagNamed (js ''table'') (node s)"
  then show "findNextTableSibling start = Some None"
    by (simp add: findNextTableSibling_eq scanTable_no_table)
qed

theorem findNextTableSibling_first_table_witness:
  "nextAll (scanSiblings ! 0) = [scanSiblings ! 1] @ (scanSiblings ! 2) # drop 3 scanSiblings
   \<and> list_all (\<lambda>s. \<not> stopsScan s) [scanSiblings ! 1]
   \<and> isTagNamed (js ''table'') (node (scanSiblings ! 2))
   \<and> findNextTableSibling (scanSiblings ! 0) = Some (Some (scanSiblings ! 2))
   \<and> nextAll (scanSiblings ! 3) = [] @ (scanSiblings ! 4) # drop 5 scanSiblings
   \<and> isTagNamed (js ''h1'') (node (scanSiblings ! 4))
   \<and> list_ex (\<lambda>s. isTagNamed (js ''table'') (node s)) (nextAll (scanSiblings ! 3))
   \<and> findNextTableSibling (scanSiblings ! 3) = Some None
   \<and> nextAll (scanSiblings ! 5) = [scanSiblings ! 6]
   \<and> list_all (\<lambda>s. \<not> isTagNamed (js ''table'') (node s)) (nextAll (scanSiblings ! 5))
   \<and> findNextTableSibling (scanSiblings ! 5) = Some None"
proof -
  have a1: "nextAll (scanSiblings ! 0) = [scanSiblings ! 1] @ (scanSiblings ! 2) # drop 3 scanSiblings"
    by (simp add: scanSiblings_def model_defs)
  have a2: "list_all (\<lambda>s. \<not> stopsScan s) [scanSiblings ! 1]"
    by (simp add: stopsScan_def scanSiblings_def model_defs)
  have a3: "isTagNamed (js ''table'') (node (scanSiblings ! 2))"
    by (simp add: scanSiblings_def model_defs)
  from a2 have a2': "\<forall>s \<in> set [scanSiblings ! 1]. \<not> stopsScan s"
    by (simp only: list_all_iff)
  from findNextTableSibling_first_table
         [where start = "scanSiblings ! 0" and pre = "[scanSiblings ! 1]"
            and t = "scanSiblings ! 2" and post = "drop 3 scanSiblings", THEN conjunct1]
       a1 a2' a3
  have a: "findNextTableSibling (scanSiblings ! 0) = Some (Some (scanSiblings ! 2))"
    by blast
  have b1: "nextAll (scanSiblings ! 3) = [] @ (scanSiblings ! 4) # drop 5 scanSiblings"
    by (simp add: scanSiblings_def model_defs)
  have b2: "isTagNamed (js ''h1'') (node (scanSiblings ! 4))"
    by (simp add: scanSiblings_def model_defs)
  have b3: "list_ex (\<lambda>s. isTagNamed (js ''table'') (node s)) (nextAll (scanSiblings ! 3))"
    by (simp add: scanSiblings_def model_defs)
  from findNextTableSibling_first_table
         [where start = "scanSiblings ! 3" and pre = "[]"
            and h = "scanSiblings ! 4" and post = "drop 5 scanSiblings",
          THEN conjunct2, THEN conjunct1]
       b1 b2
  have b: "findNextTableSibling (scanSiblings ! 3) = Some None"
    by simp
  have c1: "nextAll (scanSiblings ! 5) = [scanSiblings ! 6]"
    by (simp add: scanSiblings_def model_defs)
  have c2: "list_all (\<lambda>s. \<not> isTagNamed (js ''table'') (node s)) (nextAll (scanSiblings ! 5))"
    by (simp add: scanSiblings_def model_defs)
  then have c2': "\<forall>s \<in> set (nextAll (scanSiblings ! 5)). \<not> isTagNamed (js ''table'') (node s)"
    by (simp only: list_all_iff)
  from findNextTableSibling_first_table
         [where start = "scanSiblings ! 5", THEN conjunct2, THEN conjunct2] c2'
  have c: "findNextTableSibling (scanSiblings ! 5) = Some None"
    by blast
  from a1 a2 a3 a b1 b2 b3 b c1 c2 c show ?thesis
    by blast
qed

section \<open>Claims about the section extractor\<close>

text \<open>
  C2. Every top-level key of a result of the extraction is the trimmed text of a
  whitelisted top-level heading; let \<open>h\<close> be the last heading with that text, the one whose
  section loop filled the sub-map. A key \<open>k\<close> is present in the sub-map if and only if one
  of the siblings that the section loop of \<open>h\<close> visits is a sub-level heading with trimmed
  text \<open>k\<close>, \<open>k\<close> is in the sub-level whitelist, and the sibling scan from that heading
  returns a table. So a whitelisted heading without a table adds no key, and no key stands
  for a heading without a table.
\<close>

theorem subkey_iff_whitelisted_and_table_found:
  assumes res: "parseHtmlH1H2Tables root = Some result"
    and key: "map_of result a = Some sub"
  shows "\<exists>pre h post. h1Elements root = pre @ h # post
           \<and> trimmedText h = a \<and> a \<in> set H1_WHITELIST
           \<and> (\<forall>h' \<in> set post. trimmedText h' \<noteq> a)
           \<and> (\<forall>k. k \<in> fst ` set sub \<longleftrightarrow>
                 (\<exists>s \<in> set (sectionSiblings h (nextHeading post)).
                     isTagNamed (js ''h2'') (node s) \<and> trimmedText s = k
                     \<and> k \<in> set H2_WHITELIST
                     \<and> (\<exists>t. findNextTableSibling s = Some (Some t))))"
proof -
  from res have r: "result = sectionsFrom (h1Elements root) []"
    by (simp add: parseHtmlH1H2Tables_eq)
  from key have "a \<in> fst ` set result"
    by (rule map_of_SomeD [THEN imageI, of _ _ _ fst, simplified])
  then have "a \<in> trimmedText ` set (h1Elements root)" and wl: "a \<in> set H1_WHITELIST"
    unfolding r sectionsFrom_keys by auto
  then have "\<exists>h \<in> set (h1Elements root). trimmedText h = a" by auto
  from split_list_last_prop [OF this]
  obtain pre h post where h1s: "h1Elements root = pre @ h # post"
    and tx: "trimmedText h = a" and last: "\<forall>h' \<in> set post. trimmedText h' \<noteq> a"
    by blast
  let ?sub = "walkRefs (nextHeading post) (nextAll h) []"
  have "map_of (sectionsFrom (pre @ h # post) []) (trimmedText h) = Some ?sub"
    using wl last unfolding tx [symmetric] by (rule sectionsFrom_last_occurrence)
  with key have s: "sub = ?sub"
    unfolding r h1s tx by simp
  have k: "fst ` set ?sub
     = trimmedText ` {s \<in> set (sectionSiblings h (nextHeading post)). storesTable s}"
    using walkRefs_keys [OF isChain_nextAll, of "nextHeading post" h "[]"]
    by (simp add: sectionSiblings_def)
  have "\<forall>k. k \<in> fst ` set sub \<longleftrightarrow>
                 (\<exists>s \<in> set (sectionSiblings h (nextHeading post)).
                     isTagNamed (js ''h2'') (node s) \<and> trimmedText s = k
                     \<and> k \<in> set H2_WHITELIST
                     \<and> (\<exists>t. findNextTableSibling s = Some (Some t)))"
    unfolding s k storesTable_def by auto
  with h1s tx wl last show ?thesis by blast
qed

theorem subkey_iff_whitelisted_and_table_found_witness:
  "parseHtmlH1H2Tables reportDoc = Some
     [(js ''Call of Duty: Vanguard'', [(js ''PromoCodes'', [[(js ''Code'', js ''ABC'')]])]),
      (js ''Call of Duty: Warzone 2.0'', [(js ''Zombies Data (reverse chronological)'', [])])]
   \<and> map_of
        [(js ''Call of Duty: Vanguard'', [(js ''PromoCodes'', [[(js ''Code'', js ''ABC'')]])]),
         (js ''Call of Duty: Warzone 2.0'', [(js ''Zombies Data (reverse chronological)'', [])])]
        (js ''Call of Duty: Vanguard'')
       = Some [(js ''PromoCodes'', [[(js ''Code'', js ''ABC'')]])]
   \<and> (\<exists>pre h post. h1Elements reportDoc = pre @ h # post
         \<and> trimmedText h = js ''Call of Duty: Vanguard''
         \<and> js ''Call of Duty: Vanguard'' \<in> set H1_WHITELIST
         \<and> (\<forall>h' \<in> set post. trimmedText h' \<noteq> js ''Call of Duty: Vanguard'')
         \<and> (\<forall>k. k \<in> fst ` set [(js ''PromoCodes'', [[(js ''Code'', js ''ABC'')]])] \<longleftrightarrow>
               (\<exists>s \<in> set (sectionSiblings h (nextHeading post)).
                   isTagNamed (js ''h2'') (node s) \<and> trimmedText s = k
                   \<and> k \<in> set H2_WHITELIST
                   \<and> (\<exists>t. findNextTableSibling s = Some (Some t)))))
   \<and> sessionsHeading \<in> set (sectionSiblings (h1Elements reportDoc ! 0)
                              (nextHeading (drop 1 (h1Elements reportDoc))))
   \<and> isTagNamed (js ''h2'') (node sessionsHeading)
   \<and> trimmedText sessionsHeading = js ''Sessions Data (reverse chronological)''
   \<and> trimmedText sessionsHeading \<in> set H2_WHITELIST
   \<and> findNextTableSibling sessionsHeading = Some None"
proof -
  have key: "map_of
        [(js ''Call of Duty: Vanguard'', [(js ''PromoCodes'', [[(js ''Code'', js ''ABC'')]])]),
         (js ''Call of Duty: Warzone 2.0'', [(js ''Zombies Data (reverse chronological)'', [])])]
        (js ''Call of Duty: Vanguard'')
       = Some [(js ''PromoCodes'', [[(js ''Code'', js ''ABC'')]])]"
    by simp
  note main = subkey_iff_whitelisted_and_table_found [OF reportDoc_result key]
  have s1: "sessionsHeading \<in> set (sectionSiblings (h1Elements reportDoc ! 0)
                              (nextHeading (drop 1 (h1Elements reportDoc))))"
    by (simp add: sectionSiblings_def sessionsHeading_def reportDoc_def model_defs)
  have s2: "isTagNamed (js ''h2'') (node sessionsHeading)"
    by (simp add: sessionsHeading_def reportDoc_def model_defs)
  have s3: "trimmedText sessionsHeading = js ''Sessions Data (reverse chronological)''"
    by (simp add: sessionsHeading_def reportDoc_def model_defs)
  have s4: "trimmedText sessionsHeading \<in> set H2_WHITELIST"
    by (simp add: sessionsHeading_def reportDoc_def model_defs)
  have s5: "findNextTableSibling sessionsHeading = Some None"
    by (simp add: findNextTableSibling_eq sessionsHeading_def reportDoc_def model_defs)
  from reportDoc_result key main s1 s2 s3 s4 s5 show ?thesis
    by (intro conjI)
qed

text \<open>
  C6. When no top-level heading element of the document has a trimmed text in the
  top-level whitelist, the extraction returns the empty mapping.
\<close>

theorem no_whitelisted_heading_empty_result:
  assumes "\<forall>h \<in> set (h1Elements root).
             trimmedText h \<notin> set H1_WHITELIST"
  shows "parseHtmlH1H2Tables root = Some []"
  using assms by (simp add: parseHtmlH1H2Tables_eq sectionsFrom_none)

theorem no_whitelisted_heading_empty_result_witness:
  "map trimmedText (h1Elements unlistedDoc) = [js ''Not a game'']
   \<and> list_all (\<lambda>h. trimmedText h \<notin> set H1_WHITELIST) (h1Elements unlistedDoc)
   \<and> parseHtmlH1H2Tables unlistedDoc = Some []"
proof -
  have a: "map trimmedText (h1Elements unlistedDoc) = [js ''Not a game'']"
    by (simp add: unlistedDoc_def model_defs)
  have b: "list_all (\<lambda>h. trimmedText h \<notin> set H1_WHITELIST) (h1Elements unlistedDoc)"
    by (simp add: unlistedDoc_def model_defs)
  then have "\<forall>h \<in> set (h1Elements unlistedDoc). trimmedText h \<notin> set H1_WHITELIST"
    by (simp only: list_all_iff)
  from no_whitelisted_heading_empty_result [OF this] a b show ?thesis
    by blast
qed

text \<open>
  C7, amended. Let the document have exactly two top-level heading elements, both
  whitelisted, the second among the next siblings of the first. When their trimmed texts
  differ, the result has exactly two keys, in document order: the first sub-map is
  computed from the nodes strictly between the two headings and from nothing else, the
  second from the next siblings of the second heading. When the two texts are equal, the
  result has the one key, with the sub-map of the second heading.
\<close>

theorem two_sections_scoped:
  assumes h1s: "h1Elements root = [r1, r2]"
    and sib: "nextAll r1 = pre @ r2 # post"
    and wl1: "trimmedText r1 \<in> set H1_WHITELIST"
    and wl2: "trimmedText r2 \<in> set H1_WHITELIST"
  shows "parseHtmlH1H2Tables root =
           Some (if trimmedText r1 \<noteq> trimmedText r2
                 then [(trimmedText r1, walkNodes (map node pre) []),
                       (trimmedText r2, walkNodes (map node post) [])]
                 else [(trimmedText r2, walkNodes (map node post) [])])"
proof -
  let ?a = "trimmedText r1" and ?b = "trimmedText r2"
  let ?w1 = "walkNodes (map node pre) []" and ?w2 = "walkNodes (map node post) []"
  have "r2 \<in> set (h1Elements root)" by (simp add: h1s)
  then have h1: "isTagNamed (js ''h1'') (node r2)"
    unfolding h1Elements_def by (rule findAll_test)
  have "distinct (map ident (pre @ r2 # post))"
    using nextAll_distinct [of r1] by (simp only: sib)
  then have "ident r2 \<notin> ident ` set pre" by simp
  then have nb: "\<forall>s \<in> set pre. \<not> sameNode s (Some r2)"
    by (simp add: sameNode_def image_iff) metis
  have same: "sameNode r2 (Some r2)" by (simp add: sameNode_def)
  have w1: "walkRefs (Some r2) (nextAll r1) [] = ?w1"
    unfolding sib using same h1 nb by (rule walkRefs_boundary)
  have "isChain (pre @ r2 # post)"
    using isChain_nextAll [of r1] by (simp only: sib)
  then have "isChain (r2 # post)" by (rule isChain_append)
  then have "nextAll r2 = post" by simp
  then have w2: "walkRefs None (nextAll r2) [] = ?w2"
    by (simp only: walkRefs_no_boundary)
  from wl1 wl2 have np: "?a \<noteq> js ''__proto__''" "?b \<noteq> js ''__proto__''"
    using proto_notin_H1 by auto
  have s1: "obj_set (obj_set [] ?a []) ?a ?w1 = [(?a, ?w1)]"
    using np(1) by (simp add: obj_set_def)
  have s2: "obj_set (obj_set [(?a, ?w1)] ?b []) ?b ?w2
      = (if ?a \<noteq> ?b then [(?a, ?w1), (?b, ?w2)] else [(?b, ?w2)])"
    using np(2) by (simp add: obj_set_def)
  have "sectionsFrom [r1, r2] [] = sectionsFrom [r2] [(?a, ?w1)]"
    using wl1 by (simp add: sectionsFrom_Cons [of r1] nextHeading_def w1 s1)
  also have "\<dots> = obj_set (obj_set [(?a, ?w1)] ?b []) ?b ?w2"
    using wl2 by (simp add: sectionsFrom_Cons [of r2] nextHeading_def w2)
  finally show ?thesis
    by (simp only: parseHtmlH1H2Tables_eq h1s s2)
qed

text \<open>
  The claim as stated fails when the two headings carry the same text: the result has one
  key, not two, and that key holds what follows the second heading.
\<close>

theorem two_sections_scoped_counterexample:
  "map trimmedText (h1Elements sameTextDoc)
     = [js ''Call of Duty: Vanguard'', js ''Call of Duty: Vanguard'']
   \<and> list_all (\<lambda>h. trimmedText h \<in> set H1_WHITELIST) (h1Elements sameTextDoc)
   \<and> nextAll (h1Elements sameTextDoc ! 0)
       = take 2 (nextAll (h1Elements sameTextDoc ! 0)) @ (h1Elements sameTextDoc ! 1)
         # drop 3 (nextAll (h1Elements sameTextDoc ! 0))
   \<and> parseHtmlH1H2Tables sameTextDoc = Some
       [(js ''Call of Duty: Vanguard'',
           [(js ''Sessions Data (reverse chronological)'', [[(js ''Session'', js ''s1'')]])])]"
proof -
  have a: "map trimmedText (h1Elements sameTextDoc)
     = [js ''Call of Duty: Vanguard'', js ''Call of Duty: Vanguard'']"
    by (simp add: sameTextDoc_def model_defs)
  have b: "list_all (\<lambda>h. trimmedText h \<in> set H1_WHITELIST) (h1Elements sameTextDoc)"
    by (simp add: sameTextDoc_def model_defs)
  have c: "nextAll (h1Elements sameTextDoc ! 0)
       = take 2 (nextAll (h1Elements sameTextDoc ! 0)) @ (h1Elements sameTextDoc ! 1)
         # drop 3 (nextAll (h1Elements sameTextDoc ! 0))"
    by (simp add: sameTextDoc_def model_defs)
  from a b c sameTextDoc_result show ?thesis
    by blast
qed

theorem two_sections_scoped_witness:
  "h1Elements scenarioE = [h1Elements scenarioE ! 0, h1Elements scenarioE ! 1]
   \<and> nextAll (h1Elements scenarioE ! 0)
       = take 2 (nextAll (h1Elements scenarioE ! 0)) @ (h1Elements scenarioE ! 1)
         # drop 3 (nextAll (h1Elements scenarioE ! 0))
   \<and> trimmedText (h1Elements scenarioE ! 0) \<in> set H1_WHITELIST
   \<and> trimmedText (h1Elements scenarioE ! 1) \<in> set H1_WHITELIST
   \<and> trimmedText (h1Elements scenarioE ! 0) \<noteq> trimmedText (h1Elements scenarioE ! 1)
   \<and> parseHtmlH1H2Tables scenarioE = Some
       [(trimmedText (h1Elements scenarioE ! 0),
           walkNodes (map node (take 2 (nextAll (h1Elements scenarioE ! 0)))) []),
        (trimmedText (h1Elements scenarioE ! 1),
           walkNodes (map node (drop 3 (nextAll (h1Elements scenarioE ! 0)))) [])]
   \<and> parseHtmlH1H2Tables scenarioE = Some
       [(js ''Call of Duty: Black Ops 6'', [(js ''PromoCodes'', [[(js ''Code'', js ''ABC'')]])]),
        (js ''Call of Duty: Vanguard'',
           [(js ''Sessions Data (reverse chronological)'', [[(js ''Session'', js ''s1'')]])])]"
proof -
  let ?r1 = "h1Elements scenarioE ! 0" and ?r2 = "h1Elements scenarioE ! 1"
  have h1s: "h1Elements scenarioE = [?r1, ?r2]"
    by (simp add: scenarioE_def model_defs)
  have sib: "nextAll ?r1 = take 2 (nextAll ?r1) @ ?r2 # drop 3 (nextAll ?r1)"
    by (simp add: scenarioE_def model_defs)
  have wl1: "trimmedText ?r1 \<in> set H1_WHITELIST"
    by (simp add: scenarioE_def model_defs)
  have wl2: "trimmedText ?r2 \<in> set H1_WHITELIST"
    by (simp add: scenarioE_def model_defs)
  have ne: "trimmedText ?r1 \<noteq> trimmedText ?r2"
    by (simp add: scenarioE_def model_defs)
  from two_sections_scoped [OF h1s sib wl1 wl2] ne
  have "parseHtmlH1H2Tables scenarioE = Some
       [(trimmedText ?r1, walkNodes (map node (take 2 (nextAll ?r1))) []),
        (trimmedText ?r2, walkNodes (map node (drop 3 (nextAll ?r1))) [])]"
    by simp
  with h1s sib wl1 wl2 ne scenarioE_result show ?thesis
    by blast
qed

text \<open>
  C8. When a whitelisted top-level heading text occurs on several heading elements, the
  result has exactly one entry for that text, and its sub-map is what the section loop of
  the last such heading returns when started from the empty object: nothing of an earlier
  occurrence remains.
\<close>

theorem duplicate_heading_last_wins:
  assumes h1s: "h1Elements root = pre @ h # post"
    and wl: "trimmedText h \<in> set H1_WHITELIST"
    and last: "\<forall>h' \<in> set post. trimmedText h' \<noteq> trimmedText h"
  shows "\<exists>result sub. parseHtmlH1H2Tables root = Some result
           \<and> sectionLoop (nextHeading post) (nextSibling h) [] = Some sub
           \<and> filter (\<lambda>kv. fst kv = trimmedText h) result = [(trimmedText h, sub)]"
proof -
  let ?result = "sectionsFrom (pre @ h # post) []"
  let ?sub = "walkRefs (nextHeading post) (nextAll h) []"
  have m: "map_of ?result (trimmedText h) = Some ?sub"
    using wl last by (rule sectionsFrom_last_occurrence)
  have "distinct (map fst ?result)"
    by (rule sectionsFrom_distinct) simp
  from distinct_key_once [OF this m]
  show ?thesis
    by (simp add: parseHtmlH1H2Tables_eq h1s sectionLoop_nextHeading)
qed

theorem duplicate_heading_last_wins_witness:
  "map trimmedText (h1Elements repeatedDoc)
     = [js ''Call of Duty: Vanguard'', js ''Call of Duty: Black Ops 6'', js ''Call of Duty: Vanguard'']
   \<and> h1Elements repeatedDoc = take 2 (h1Elements repeatedDoc) @ (h1Elements repeatedDoc ! 2) # []
   \<and> trimmedText (h1Elements repeatedDoc ! 2) \<in> set H1_WHITELIST
   \<and> (\<exists>result sub. parseHtmlH1H2Tables repeatedDoc = Some result
         \<and> sectionLoop (nextHeading []) (nextSibling (h1Elements repeatedDoc ! 2)) [] = Some sub
         \<and> filter (\<lambda>kv. fst kv = js ''Call of Duty: Vanguard'') result
             = [(js ''Call of Duty: Vanguard'', sub)]
         \<and> sub = [(js ''Sessions Data (reverse chronological)'', [[(js ''Session'', js ''s1'')]])])"
proof -
  let ?h = "h1Elements repeatedDoc ! 2"
  have a: "map trimmedText (h1Elements repeatedDoc)
     = [js ''Call of Duty: Vanguard'', js ''Call of Duty: Black Ops 6'', js ''Call of Duty: Vanguard'']"
    by (simp add: repeatedDoc_def model_defs)
  have h1s: "h1Elements repeatedDoc = take 2 (h1Elements repeatedDoc) @ ?h # []"
    by (simp add: repeatedDoc_def model_defs)
  have tx: "trimmedText ?h = js ''Call of Duty: Vanguard''"
    by (simp add: repeatedDoc_def model_defs)
  have wl: "trimmedText ?h \<in> set H1_WHITELIST"
    by (simp add: repeatedDoc_def model_defs)
  have last: "\<forall>h' \<in> set []. trimmedText h' \<noteq> trimmedText ?h"
    by simp
  have f: "filter (\<lambda>kv. fst kv = js ''Call of Duty: Vanguard'')
      [(js ''Call of Duty: Vanguard'',
         [(js ''Sessions Data (reverse chronological)'', [[(js ''Session'', js ''s1'')]])]),
       (js ''Call of Duty: Black Ops 6'', [(js ''PromoCodes'', [[(js ''Code'', js ''DEF'')]])])]
     = [(js ''Call of Duty: Vanguard'',
         [(js ''Sessions Data (reverse chronological)'', [[(js ''Session'', js ''s1'')]])])]"
    by (simp add: repeatedDoc_def model_defs)
  from duplicate_heading_last_wins [OF h1s wl last]
  have "\<exists>result sub. parseHtmlH1H2Tables repeatedDoc = Some result
         \<and> sectionLoop (nextHeading []) (nextSibling ?h) [] = Some sub
         \<and> filter (\<lambda>kv. fst kv = js ''Call of Duty: Vanguard'') result
             = [(js ''Call of Duty: Vanguard'', sub)]
         \<and> sub = [(js ''Sessions Data (reverse chronological)'', [[(js ''Session'', js ''s1'')]])]"
    unfolding tx repeatedDoc_result using f by auto
  with a h1s wl show ?thesis
    by blast
qed

text \<open>
  C9. The extraction returns a mapping in which every top-level key is an element of
  \<open>H1_WHITELIST\<close> and every key of every sub-map is an element of \<open>H2_WHITELIST\<close>.
\<close>

theorem result_keys_whitelisted:
  "\<exists>result. parseHtmlH1H2Tables root = Some result
     \<and> (\<forall>(k, sub) \<in> set result.
           k \<in> set H1_WHITELIST \<and> (\<forall>(k2, v) \<in> set sub. k2 \<in> set H2_WHITELIST))"
  using sectionsFrom_whitelisted [of "[]" "h1Elements root"]
  by (simp add: parseHtmlH1H2Tables_eq whitelistedKeys_def)

theorem result_keys_whitelisted_witness:
  "\<exists>result. parseHtmlH1H2Tables reportDoc = Some result
     \<and> map fst result = [js ''Call of Duty: Vanguard'', js ''Call of Duty: Warzone 2.0'']
     \<and> list_all (\<lambda>(k, sub). k \<in> set H1_WHITELIST
           \<and> list_all (\<lambda>(k2, v). k2 \<in> set H2_WHITELIST) sub) result"
proof -
  from result_keys_whitelisted [of reportDoc] obtain result
    where r: "parseHtmlH1H2Tables reportDoc = Some result"
      and w: "\<forall>(k, sub) \<in> set result.
           k \<in> set H1_WHITELIST \<and> (\<forall>(k2, v) \<in> set sub. k2 \<in> set H2_WHITELIST)"
    by blast
  from w have l: "list_all (\<lambda>(k, sub). k \<in> set H1_WHITELIST
           \<and> list_all (\<lambda>(k2, v). k2 \<in> set H2_WHITELIST) sub) result"
    by (simp add: list_all_iff case_prod_beta)
  from r have m: "map fst result = [js ''Call of Duty: Vanguard'', js ''Call of Duty: Warzone 2.0'']"
    unfolding reportDoc_result by auto
  show ?thesis
    by (rule exI [of _ result]) (simp only: r m l simp_thms)
qed

text \<open>
  C10. The extraction terminates on every document: the sibling scan returns from every
  start node, the section loop returns from every sibling, boundary and sub-map, the loop
  over the top-level headings returns from every list, index and accumulator, and so
  \<open>parseHtmlH1H2Tables\<close> returns a mapping.
\<close>

theorem extract_terminates:
  "(\<exists>t. findNextTableSibling h2Node = Some t)
   \<and> (\<exists>sub'. sectionLoop nextH1Node sibling sub = Some sub')
   \<and> (\<exists>r. forH1 hs i parsed = Some r)
   \<and> (\<exists>result. parseHtmlH1H2Tables root = Some result)"
proof -
  have "\<exists>sub'. sectionLoop nextH1Node sibling sub = Some sub'"
    by (cases sibling) (simp_all add: sectionLoop_Some sectionLoop.simps [of _ None])
  then show ?thesis
    by (simp add: findNextTableSibling_eq forH1_eq parseHtmlH1H2Tables_eq)
qed

theorem extract_terminates_witness:
  "(\<exists>t. findNextTableSibling sessionsHeading = Some t)
   \<and> (\<exists>sub'. sectionLoop (Some (h1Elements reportDoc ! 1))
                (nextSibling (h1Elements reportDoc ! 0)) [] = Some sub')
   \<and> (\<exists>r. forH1 (h1Elements reportDoc) 0 [] = Some r)
   \<and> parseHtmlH1H2Tables reportDoc = Some
       [(js ''Call of Duty: Vanguard'', [(js ''PromoCodes'', [[(js ''Code'', js ''ABC'')]])]),
        (js ''Call of Duty: Warzone 2.0'', [(js ''Zombies Data (reverse chronological)'', [])])]"
  using extract_terminates [of sessionsHeading "Some (h1Elements reportDoc ! 1)"
      "nextSibling (h1Elements reportDoc ! 0)" "[]" "h1Elements reportDoc" 0 "[]" reportDoc]
    reportDoc_result
  by simp

end
